theory Spec2Isabelle
  imports Main
begin

section \<open>Errors and the external pattern library\<close>

text \<open>
  The exceptions the module can raise: a failed \<^verbatim>\<open>assert\<close>, an \<^verbatim>\<open>OSError\<close> of the
  file system (a directory that cannot be listed, a file that cannot be read), the
  \<^verbatim>\<open>ValueError\<close> of \<^verbatim>\<open>os.path.relpath\<close> on an empty path, and the pattern error of the
  \<^verbatim>\<open>pathspec\<close> library on a malformed pattern.
\<close>

datatype error = AssertionError | IoError | ValueError | PatternError

text \<open>
  \<^verbatim>\<open>pathspec.GitIgnoreSpec\<close> is an external library. It is a parameter of the model:
  \<open>from_lines\<close> compiles a list of pattern lines (\<open>None\<close> when the library raises on a
  malformed pattern) and \<open>match_file\<close> tests one path against a compiled specification.
\<close>

record 'spec GitIgnoreSpec =
  from_lines :: "string list \<Rightarrow> 'spec option"
  match_file :: "'spec \<Rightarrow> string \<Rightarrow> bool"

section \<open>PathspecIgnorer\<close>

record 'spec PathspecIgnorer =
  pathspec :: 'spec

definition PathspecIgnorer_create ::
  "'spec GitIgnoreSpec \<Rightarrow> string list \<Rightarrow> error + 'spec PathspecIgnorer" where
  "PathspecIgnorer_create lib ignore_patterns =
     (case from_lines lib ignore_patterns of
        None \<Rightarrow> Inl PatternError
      | Some ps \<Rightarrow> Inr \<lparr>pathspec = ps\<rparr>)"

definition PathspecIgnorer_ignore ::
  "'spec GitIgnoreSpec \<Rightarrow> 'spec PathspecIgnorer \<Rightarrow> string \<Rightarrow> error + bool" where
  "PathspecIgnorer_ignore lib self path =
     (if path \<in> {''/'', ''''} then Inl AssertionError
      else Inr (match_file lib (pathspec self) path))"

section \<open>GitIgnorer: the registry of scoped ignorers\<close>

text \<open>\<^verbatim>\<open>str.startswith\<close>: the prefix test on the characters of the string.\<close>

fun startswith :: "string \<Rightarrow> string \<Rightarrow> bool" where
  "startswith s [] = True"
| "startswith [] (c # p) = False"
| "startswith (d # s) (c # p) = (d = c \<and> startswith s p)"

record 'spec GitIgnorer =
  ignorer_data :: "(string \<times> 'spec PathspecIgnorer) list"

text \<open>The \<^verbatim>\<open>for\<close> loop of \<^verbatim>\<open>GitIgnorer.ignore\<close>, over the remaining entries.\<close>

fun ignore_loop ::
  "'spec GitIgnoreSpec \<Rightarrow> (string \<times> 'spec PathspecIgnorer) list \<Rightarrow> string \<Rightarrow> error + bool" where
  "ignore_loop lib [] path = Inr False"
| "ignore_loop lib ((prefix, ignorer) # rest) path =
     (if startswith path prefix then
        (case PathspecIgnorer_ignore lib ignorer path of
           Inl e \<Rightarrow> Inl e
         | Inr True \<Rightarrow> Inr True
         | Inr False \<Rightarrow> ignore_loop lib rest path)
      else ignore_loop lib rest path)"

definition GitIgnorer_ignore ::
  "'spec GitIgnoreSpec \<Rightarrow> 'spec GitIgnorer \<Rightarrow> string \<Rightarrow> error + bool" where
  "GitIgnorer_ignore lib self path =
     (if path \<in> {''/'', ''''} then Inl AssertionError
      else ignore_loop lib (ignorer_data self) path)"

section \<open>Path arithmetic of \<^verbatim>\<open>os.path\<close> (POSIX)\<close>

text \<open>\<^verbatim>\<open>s.split("/")\<close>: the pieces between the separators; never the empty list.\<close>

fun split_sep :: "string \<Rightarrow> string list" where
  "split_sep [] = [[]]"
| "split_sep (c # s) =
     (if c = CHR ''/'' then [] # split_sep s
      else (c # hd (split_sep s)) # tl (split_sep s))"

text \<open>\<^verbatim>\<open>"/".join(comps)\<close>.\<close>

fun sep_join :: "string list \<Rightarrow> string" where
  "sep_join [] = []"
| "sep_join [x] = x"
| "sep_join (x # y # r) = x @ ''/'' @ sep_join (y # r)"

text \<open>\<^verbatim>\<open>os.path.join(a, b)\<close> with two arguments.\<close>

definition os_path_join :: "string \<Rightarrow> string \<Rightarrow> string" where
  "os_path_join a b =
     (if startswith b ''/'' then b
      else if a = [] \<or> last a = CHR ''/'' then a @ b
      else a @ ''/'' @ b)"

text \<open>
  One round of the loop of \<^verbatim>\<open>os.path.normpath\<close> over the components: empty and
  \<^verbatim>\<open>.\<close> components are dropped, \<^verbatim>\<open>..\<close> removes the component before it where there
  is one to remove, and is kept at the start of a relative path and after another
  \<^verbatim>\<open>..\<close>.
\<close>

definition normpath_step :: "nat \<Rightarrow> string \<Rightarrow> string list \<Rightarrow> string list" where
  "normpath_step initial_slashes cmp new_comps =
     (if cmp \<in> {[], ''.''} then new_comps
      else if cmp \<noteq> ''..'' \<or> (initial_slashes = 0 \<and> new_comps = [])
              \<or> (new_comps \<noteq> [] \<and> last new_comps = ''..'')
        then new_comps @ [cmp]
      else if new_comps \<noteq> [] then butlast new_comps
      else new_comps)"

definition initial_slashes_of :: "string \<Rightarrow> nat" where
  "initial_slashes_of path =
     (if startswith path ''/'' then
        (if startswith path ''//'' \<and> \<not> startswith path ''///'' then 2 else 1)
      else 0)"

definition normpath_comps :: "string \<Rightarrow> string list" where
  "normpath_comps path =
     fold (normpath_step (initial_slashes_of path)) (split_sep path) []"

definition os_path_normpath :: "string \<Rightarrow> string" where
  "os_path_normpath path =
     (if path = [] then ''.''
      else let p = replicate (initial_slashes_of path) (CHR ''/'') @ sep_join (normpath_comps path)
           in if p = [] then ''.'' else p)"

text \<open>\<^verbatim>\<open>os.path.abspath\<close>; the current working directory is the parameter \<open>cwd\<close>.\<close>

definition os_path_abspath :: "string \<Rightarrow> string \<Rightarrow> string" where
  "os_path_abspath cwd path =
     os_path_normpath (if startswith path ''/'' then path else os_path_join cwd path)"

text \<open>The longest common prefix of two lists of components (\<^verbatim>\<open>os.path.commonprefix\<close>).\<close>

fun commonprefix :: "string list \<Rightarrow> string list \<Rightarrow> string list" where
  "commonprefix (x # xs) (y # ys) = (if x = y then x # commonprefix xs ys else [])"
| "commonprefix xs ys = []"

text \<open>\<^verbatim>\<open>os.path.relpath(path, start)\<close>; it raises \<^verbatim>\<open>ValueError\<close> on the empty path.\<close>

definition os_path_relpath :: "string \<Rightarrow> string \<Rightarrow> string \<Rightarrow> error + string" where
  "os_path_relpath cwd path start =
     (if path = [] then Inl ValueError
      else
        let start_list = filter (\<lambda>x. x \<noteq> []) (split_sep (os_path_abspath cwd start));
            path_list = filter (\<lambda>x. x \<noteq> []) (split_sep (os_path_abspath cwd path));
            i = length (commonprefix start_list path_list);
            rel_list = replicate (length start_list - i) ''..'' @ drop i path_list
        in if rel_list = [] then Inr ''.'' else Inr (sep_join rel_list))"

section \<open>The file system\<close>

text \<open>
  The project tree as the program sees it. A file carries whether it can be read and the
  lines \<^verbatim>\<open>read().splitlines()\<close> gives; a directory carries whether it can be listed and its
  entries in listing order, each name with the node it names. Symbolic links are not
  part of the model.
\<close>

datatype node =
    File bool "string list"
  | Dir bool "(string \<times> node) list"

fun isdir :: "node \<Rightarrow> bool" where
  "isdir (Dir l es) = True"
| "isdir (File r ls) = False"

text \<open>
  \<^verbatim>\<open>os.listdir(path)\<close> where \<open>nd\<close> is the node at \<open>path\<close>: the entries of a listable
  directory, an \<^verbatim>\<open>OSError\<close> otherwise (the empty path names nothing). Each name comes
  with its node, which is what \<^verbatim>\<open>os.path.isdir\<close> and a later \<^verbatim>\<open>listdir\<close> or \<^verbatim>\<open>open\<close> of
  the joined path observe.
\<close>

fun os_listdir :: "string \<Rightarrow> node \<Rightarrow> error + (string \<times> node) list" where
  "os_listdir path (Dir l es) = (if path = [] \<or> \<not> l then Inl IoError else Inr es)"
| "os_listdir path (File r ls) = Inl IoError"

text \<open>\<^verbatim>\<open>open(path, "r")\<close> followed by \<^verbatim>\<open>read().splitlines()\<close>, on the node at \<open>path\<close>.\<close>

fun read_lines :: "node \<Rightarrow> error + string list" where
  "read_lines (File r ls) = (if r then Inr ls else Inl IoError)"
| "read_lines (Dir l es) = Inl IoError"

section \<open>Building the registry\<close>

text \<open>
  \<^verbatim>\<open>os.walk(top)\<close>, top-down, with its defaults: a directory that cannot be scanned is
  skipped without an error (\<^verbatim>\<open>onerror=None\<close>), and so is a \<open>top\<close> that is no
  directory. Each step yields the directory's path, its sub-directories and its other
  entries, and the walk then descends into the sub-directories in listing order.
\<close>

fun os_walk ::
  "string \<Rightarrow> node \<Rightarrow> (string \<times> (string \<times> node) list \<times> (string \<times> node) list) list" where
  "os_walk top_dir (File r ls) = []"
| "os_walk top_dir (Dir l es) =
     (if top_dir = [] \<or> \<not> l then []
      else (top_dir, filter (\<lambda>(e, n). isdir n) es, filter (\<lambda>(e, n). \<not> isdir n) es)
           # concat (map (\<lambda>(e, n). os_walk (os_path_join top_dir e) n)
                         (filter (\<lambda>(e, n). isdir n) es)))"

text \<open>
  The loop of \<^verbatim>\<open>_collect_gitignores\<close> over the steps of the walk. \<open>map_of files\<close> finds
  the node named \<^verbatim>\<open>.gitignore\<close> among the non-directory entries, if there is one; that
  node is what \<^verbatim>\<open>open(os.path.join(root, ".gitignore"))\<close> reads. The source calls
  \<^verbatim>\<open>os.path.relpath(root, top)\<close> twice with the same arguments; the model calls it
  once. \<open>top_dir\<close> stands for the source's \<^verbatim>\<open>top\<close>.
\<close>

fun collect_loop ::
  "string \<Rightarrow> string \<Rightarrow> (string \<times> (string \<times> node) list \<times> (string \<times> node) list) list
     \<Rightarrow> (string \<times> string list) list \<Rightarrow> error + (string \<times> string list) list" where
  "collect_loop cwd top_dir [] gitignores = Inr gitignores"
| "collect_loop cwd top_dir ((root, dirs, files) # rest) gitignores =
     (case map_of files ''.gitignore'' of
        None \<Rightarrow> collect_loop cwd top_dir rest gitignores
      | Some file \<Rightarrow>
          (case read_lines file of
             Inl e \<Rightarrow> Inl e
           | Inr patterns \<Rightarrow>
               (case os_path_relpath cwd root top_dir of
                  Inl e \<Rightarrow> Inl e
                | Inr relpath \<Rightarrow>
                    let fixpath = (if relpath = ''.'' then ''/'' else ''/'' @ relpath)
                    in collect_loop cwd top_dir rest (gitignores @ [(fixpath, patterns)]))))"

definition collect_gitignores ::
  "string \<Rightarrow> string \<Rightarrow> node \<Rightarrow> error + (string \<times> string list) list" where
  "collect_gitignores cwd top_dir fs = collect_loop cwd top_dir (os_walk top_dir fs) []"

text \<open>The loop of \<^verbatim>\<open>from_git_root\<close> that appends one ignorer for each file found.\<close>

fun append_ignorers ::
  "'spec GitIgnoreSpec \<Rightarrow> (string \<times> string list) list
     \<Rightarrow> (string \<times> 'spec PathspecIgnorer) list
     \<Rightarrow> error + (string \<times> 'spec PathspecIgnorer) list" where
  "append_ignorers lib [] data = Inr data"
| "append_ignorers lib ((relative_path, patterns) # rest) data =
     (case PathspecIgnorer_create lib patterns of
        Inl e \<Rightarrow> Inl e
      | Inr ignorer \<Rightarrow> append_ignorers lib rest (data @ [(relative_path, ignorer)]))"

text \<open>
  \<^verbatim>\<open>GitIgnorer.from_git_root(root_dir, xtra_root_patterns)\<close>, where \<open>fs\<close> is the tree at
  \<open>root_dir\<close> and \<open>None\<close> stands for the default argument.
\<close>

definition GitIgnorer_from_git_root ::
  "'spec GitIgnoreSpec \<Rightarrow> string \<Rightarrow> node \<Rightarrow> string \<Rightarrow> string list option
     \<Rightarrow> error + 'spec GitIgnorer" where
  "GitIgnorer_from_git_root lib cwd fs root_dir xtra_root_patterns =
     (case PathspecIgnorer_create lib
             (case xtra_root_patterns of None \<Rightarrow> [] | Some ps \<Rightarrow> ps) of
        Inl e \<Rightarrow> Inl e
      | Inr root_ignorer \<Rightarrow>
          (case collect_gitignores cwd root_dir fs of
             Inl e \<Rightarrow> Inl e
           | Inr gitignores \<Rightarrow>
               (case append_ignorers lib gitignores [(''/'', root_ignorer)] of
                  Inl e \<Rightarrow> Inl e
                | Inr data \<Rightarrow> Inr \<lparr>ignorer_data = data\<rparr>)))"

section \<open>FileSelector: the traversal\<close>

text \<open>
  Modelled from the spec: the class \<^verbatim>\<open>ConfigManager\<close> of the module
  \<^verbatim>\<open>llm_code_context.config_manager\<close>. What the selector reads from it are fields of
  the record: its two accessors of the project root (a project root path, which the
  specification takes to be usable both as a file system path and as a logical path)
  and the configured list of root-level patterns under the key \<^verbatim>\<open>gitignores\<close>. Its
  \<^verbatim>\<open>select_files\<close>, the operation that persists a list of paths as the selected
  files, appears in \<open>update_selected\<close> below as the list of the calls it received.
\<close>

record ConfigManager =
  project_root_path :: string
  project_root :: string
  project_gitignores :: "string list"

record 'spec FileSelector =
  config_manager :: ConfigManager
  ignorer :: "'spec GitIgnorer"

text \<open>
  The comprehension that computes \<^verbatim>\<open>dirs\<close>: the entries whose joined path is a non-empty
  string, names a directory and is not ignored under the query path with a trailing
  slash. Each selected path is kept with the node it names.
\<close>

fun select_dirs ::
  "'spec GitIgnoreSpec \<Rightarrow> 'spec GitIgnorer \<Rightarrow> string \<Rightarrow> string \<Rightarrow> (string \<times> node) list
     \<Rightarrow> error + (string \<times> node) list" where
  "select_dirs lib ig current_dir relative_current_dir [] = Inr []"
| "select_dirs lib ig current_dir relative_current_dir ((e, n) # entries) =
     (let e_path = os_path_join current_dir e in
      if e_path \<noteq> [] \<and> isdir n then
        (case GitIgnorer_ignore lib ig (''/'' @ os_path_join relative_current_dir e @ ''/'') of
           Inl err \<Rightarrow> Inl err
         | Inr True \<Rightarrow> select_dirs lib ig current_dir relative_current_dir entries
         | Inr False \<Rightarrow>
             (case select_dirs lib ig current_dir relative_current_dir entries of
                Inl err \<Rightarrow> Inl err
              | Inr ds \<Rightarrow> Inr ((e_path, n) # ds)))
      else select_dirs lib ig current_dir relative_current_dir entries)"

text \<open>The comprehension that computes \<^verbatim>\<open>files\<close>, with the query path without the slash.\<close>

fun select_files ::
  "'spec GitIgnoreSpec \<Rightarrow> 'spec GitIgnorer \<Rightarrow> string \<Rightarrow> string \<Rightarrow> (string \<times> node) list
     \<Rightarrow> error + string list" where
  "select_files lib ig current_dir relative_current_dir [] = Inr []"
| "select_files lib ig current_dir relative_current_dir ((e, n) # entries) =
     (let e_path = os_path_join current_dir e in
      if e_path \<noteq> [] \<and> \<not> isdir n then
        (case GitIgnorer_ignore lib ig (''/'' @ os_path_join relative_current_dir e) of
           Inl err \<Rightarrow> Inl err
         | Inr True \<Rightarrow> select_files lib ig current_dir relative_current_dir entries
         | Inr False \<Rightarrow>
             (case select_files lib ig current_dir relative_current_dir entries of
                Inl err \<Rightarrow> Inl err
              | Inr fs \<Rightarrow> Inr (e_path # fs)))
      else select_files lib ig current_dir relative_current_dir entries)"

text \<open>
  The comprehension \<^verbatim>\<open>[file for d in dirs for file in self.traverse(d)]\<close>, given the results
  of the recursive calls in order: the first error ends it.
\<close>

fun concat_results :: "(error + string list) list \<Rightarrow> error + string list" where
  "concat_results [] = Inr []"
| "concat_results (Inl e # rs) = Inl e"
| "concat_results (Inr xs # rs) =
     (case concat_results rs of Inl e \<Rightarrow> Inl e | Inr ys \<Rightarrow> Inr (xs @ ys))"

lemma select_dirs_subset:
  "select_dirs lib ig cur rel entries = Inr ds \<Longrightarrow> (d, n) \<in> set ds
     \<Longrightarrow> \<exists>e. (e, n) \<in> set entries"
proof (induction entries arbitrary: ds)
  case Nil
  then show ?case by simp
next
  case (Cons en entries)
  obtain e' n' where en: "en = (e', n')" by (cases en)
  from Cons.prems Cons.IH show ?case
    unfolding en
    by (fastforce simp: Let_def split: if_splits sum.splits bool.splits)
qed

lemma size_entry_less:
  "(e, n) \<in> set es \<Longrightarrow> size n < size (Dir l es)"
  by (induction es) auto

text \<open>\<^verbatim>\<open>FileSelector.traverse(current_dir)\<close>, where \<open>nd\<close> is the node at \<open>current_dir\<close>.\<close>

function traverse ::
  "'spec GitIgnoreSpec \<Rightarrow> string \<Rightarrow> 'spec FileSelector \<Rightarrow> string \<Rightarrow> node
     \<Rightarrow> error + string list" where
  "traverse lib cwd self current_dir nd =
     (case os_listdir current_dir nd of
        Inl err \<Rightarrow> Inl err
      | Inr entries \<Rightarrow>
          (case os_path_relpath cwd current_dir (project_root (config_manager self)) of
             Inl err \<Rightarrow> Inl err
           | Inr relative_current_dir \<Rightarrow>
               (case select_dirs lib (ignorer self) current_dir relative_current_dir entries of
                  Inl err \<Rightarrow> Inl err
                | Inr dirs \<Rightarrow>
                    (case select_files lib (ignorer self) current_dir relative_current_dir
                            entries of
                       Inl err \<Rightarrow> Inl err
                     | Inr files \<Rightarrow>
                         (case concat_results
                                 (map (\<lambda>(d, n). traverse lib cwd self d n) dirs) of
                            Inl err \<Rightarrow> Inl err
                          | Inr subdir_files \<Rightarrow> Inr (files @ subdir_files))))))"
  by pat_completeness auto
termination
proof (relation "measure (\<lambda>(lib, cwd, self, current_dir, nd). size nd)")
  show "wf (measure (\<lambda>(lib, cwd, self, current_dir, nd). size nd))" by simp
next
  fix lib :: "'spec GitIgnoreSpec" and cwd self current_dir nd entries rel dirs files
    and x :: "string \<times> node" and d n
  assume ls: "os_listdir current_dir nd = Inr entries"
    and sd: "select_dirs lib (ignorer self) current_dir rel entries = Inr dirs"
    and x: "x \<in> set dirs" "(d, n) = x"
  from sd x obtain e where "(e, n) \<in> set entries"
    using select_dirs_subset by blast
  moreover from ls obtain l where "nd = Dir l entries"
    by (cases nd) (auto split: if_splits)
  ultimately have "size n < size nd" using size_entry_less by simp
  then show "((lib, cwd, self, d, n), (lib, cwd, self, current_dir, nd))
               \<in> measure (\<lambda>(lib, cwd, self, current_dir, nd). size nd)"
    by simp
qed

text \<open>
  \<^verbatim>\<open>get_all\<close> starts the traversal at the project root, \<open>fs\<close> being the tree there.
\<close>

definition get_all ::
  "'spec GitIgnoreSpec \<Rightarrow> string \<Rightarrow> node \<Rightarrow> 'spec FileSelector \<Rightarrow> error + string list" where
  "get_all lib cwd fs self =
     traverse lib cwd self (project_root_path (config_manager self)) fs"

text \<open>
  \<^verbatim>\<open>update_selected\<close>: the list of files goes to \<^verbatim>\<open>select_files\<close> of the
  configuration manager. The second component of the result is the list of the calls
  of \<^verbatim>\<open>select_files\<close> made, each with its argument.
\<close>

definition update_selected ::
  "'spec GitIgnoreSpec \<Rightarrow> string \<Rightarrow> node \<Rightarrow> 'spec FileSelector
     \<Rightarrow> (error + unit) \<times> string list list" where
  "update_selected lib cwd fs self =
     (case get_all lib cwd fs self of
        Inl err \<Rightarrow> (Inl err, [])
      | Inr all_files \<Rightarrow> (Inr (), [all_files]))"

text \<open>\<^verbatim>\<open>FileSelector.create(pathspecs)\<close>, for the configuration manager \<open>cm\<close>.\<close>

definition FileSelector_create ::
  "'spec GitIgnoreSpec \<Rightarrow> string \<Rightarrow> node \<Rightarrow> ConfigManager \<Rightarrow> string list option
     \<Rightarrow> error + 'spec FileSelector" where
  "FileSelector_create lib cwd fs cm pathspecs =
     (let pathspecs' = (case pathspecs of None \<Rightarrow> project_gitignores cm | Some ps \<Rightarrow> ps) in
      case GitIgnorer_from_git_root lib cwd fs (project_root_path cm) (Some pathspecs') of
        Inl err \<Rightarrow> Inl err
      | Inr git_ignorer \<Rightarrow> Inr \<lparr>config_manager = cm, ignorer = git_ignorer\<rparr>)"

text \<open>The entry point: create the selector, then update the selection.\<close>

definition main ::
  "'spec GitIgnoreSpec \<Rightarrow> string \<Rightarrow> node \<Rightarrow> ConfigManager
     \<Rightarrow> (error + unit) \<times> string list list" where
  "main lib cwd fs cm =
     (case FileSelector_create lib cwd fs cm None of
        Inl err \<Rightarrow> (Inl err, [])
      | Inr selector \<Rightarrow> update_selected lib cwd fs selector)"

section \<open>Properties of the registry query\<close>

lemma startswith_iff_prefix: "startswith s p = (\<exists>r. s = p @ r)"
  by (induction s p rule: startswith.induct) auto

lemma ignore_loop_eq:
  assumes "path \<noteq> ''/''" and "path \<noteq> ''''"
  shows "ignore_loop lib scopes path =
           Inr (\<exists>(prefix, ignorer) \<in> set scopes.
                  startswith path prefix \<and> match_file lib (pathspec ignorer) path)"
  using assms
  by (induction scopes) (auto simp: PathspecIgnorer_ignore_def split: sum.splits bool.splits)

section \<open>Facts about the path arithmetic\<close>

text \<open>
  The names \<^verbatim>\<open>os.listdir\<close> returns are not empty, hold no separator and are neither
  \<^verbatim>\<open>.\<close> nor \<^verbatim>\<open>..\<close>. \<open>joins base rel\<close> is the path reached from \<open>base\<close> by joining
  the names \<open>rel\<close> one after the other, as the recursion does.
\<close>

definition valid_name :: "string \<Rightarrow> bool" where
  "valid_name e = (e \<noteq> [] \<and> CHR ''/'' \<notin> set e \<and> e \<noteq> ''.'' \<and> e \<noteq> ''..'')"

definition joins :: "string \<Rightarrow> string list \<Rightarrow> string" where
  "joins base rel = foldl os_path_join base rel"

lemma split_sep_ne: "split_sep s \<noteq> []"
  by (induction s) auto

lemma split_sep_noslash: "CHR ''/'' \<notin> set s \<Longrightarrow> split_sep s = [s]"
  by (induction s) auto

lemma split_sep_app: "split_sep (a @ CHR ''/'' # b) = split_sep a @ split_sep b"
  by (induction a) (auto simp: split_sep_ne)

lemma split_sep_elems: "c \<in> set (split_sep s) \<Longrightarrow> CHR ''/'' \<notin> set c"
proof (induction s arbitrary: c)
  case Nil then show ?case by simp
next
  case (Cons x s)
  then show ?case
    using split_sep_ne [of s]
    by (cases "split_sep s") (auto split: if_splits)
qed

lemma split_sep_snoc_slash: "last q = CHR ''/'' \<Longrightarrow> q \<noteq> [] \<Longrightarrow> CHR ''/'' \<notin> set e
   \<Longrightarrow> split_sep (q @ e) = butlast (split_sep q) @ [e] \<and> last (split_sep q) = []"
proof -
  assume a: "last q = CHR ''/''" "q \<noteq> []" "CHR ''/'' \<notin> set e"
  then obtain q' where q: "q = q' @ ''/''" by (metis append_butlast_last_id)
  have "split_sep (q @ e) = split_sep q' @ [e]"
    using split_sep_app [of q' e] a by (simp add: q split_sep_noslash)
  moreover have "split_sep q = split_sep q' @ [[]]"
    using split_sep_app [of q' "[]"] by (simp add: q)
  ultimately show ?thesis by simp
qed

lemma starts_slash: "startswith s ''/'' = (s \<noteq> [] \<and> hd s = CHR ''/'')"
  by (cases s) auto

lemma join_valid: "valid_name e \<Longrightarrow> os_path_join q e = (if q = [] \<or> last q = CHR ''/'' then q @ e else q @ ''/'' @ e)"
  by (cases e) (auto simp: os_path_join_def valid_name_def)

lemma fold_step_snoc_empty: "fold (normpath_step k) (xs @ [[]]) acc = fold (normpath_step k) xs acc"
  by (simp add: normpath_step_def)

lemma step_valid: "valid_name e \<Longrightarrow> normpath_step k e acc = acc @ [e]"
  by (auto simp: normpath_step_def valid_name_def)

lemma initial_slashes_join:
  assumes "valid_name e" "q \<noteq> []"
  shows "initial_slashes_of (os_path_join q e) = initial_slashes_of q"
proof -
  obtain c e' where e: "e = c # e'" "c \<noteq> CHR ''/''" using assms(1) by (cases e) (auto simp: valid_name_def)
  obtain a q1 where q: "q = a # q1" using assms(2) by (cases q) auto
  show ?thesis
  proof (cases q1)
    case Nil
    then show ?thesis using e q assms(1) by (auto simp: join_valid initial_slashes_of_def)
  next
    case (Cons b q2)
    show ?thesis
    proof (cases q2)
      case Nil
      then show ?thesis using e q Cons assms(1) by (auto simp: join_valid initial_slashes_of_def)
    next
      case (Cons d q3)
      then show ?thesis using e q \<open>q1 = b # q2\<close> assms(1) by (auto simp: join_valid initial_slashes_of_def)
    qed
  qed
qed

lemma normpath_comps_join:
  assumes "valid_name e" "q \<noteq> []"
  shows "normpath_comps (os_path_join q e) = normpath_comps q @ [e]"
proof -
  have ns: "CHR ''/'' \<notin> set e" using assms(1) by (simp add: valid_name_def)
  show ?thesis
  proof (cases "last q = CHR ''/''")
    case True
    from split_sep_snoc_slash [OF True assms(2) ns]
    have s: "split_sep (q @ e) = butlast (split_sep q) @ [e]" and l: "last (split_sep q) = []" by auto
    have sq: "split_sep q = butlast (split_sep q) @ [[]]"
      using l split_sep_ne [of q] by (metis append_butlast_last_id)
    have "fold (normpath_step (initial_slashes_of q)) (split_sep q) [] =
          fold (normpath_step (initial_slashes_of q)) (butlast (split_sep q)) []"
      using fold_step_snoc_empty [of "initial_slashes_of q" "butlast (split_sep q)" "[]"] sq by simp
    then show ?thesis
      using True assms initial_slashes_join [OF assms]
      by (simp add: normpath_comps_def join_valid s step_valid)
  next
    case False
    have "split_sep (q @ ''/'' @ e) = split_sep q @ [e]"
      using split_sep_app [of q e] ns by (simp add: split_sep_noslash)
    then show ?thesis
      using False assms initial_slashes_join [OF assms]
      by (simp add: normpath_comps_def join_valid step_valid)
  qed
qed

definition absolutize :: "string \<Rightarrow> string \<Rightarrow> string" where
  "absolutize cwd p = (if startswith p ''/'' then p else os_path_join cwd p)"

definition abs_comps :: "string \<Rightarrow> string \<Rightarrow> string list" where
  "abs_comps cwd p = filter (\<lambda>x. x \<noteq> []) (split_sep (os_path_abspath cwd p))"

lemma join_noslash:
  "\<not> startswith b ''/'' \<Longrightarrow>
     os_path_join a b = (if a = [] \<or> last a = CHR ''/'' then a else a @ ''/'') @ b"
  by (simp add: os_path_join_def)

lemma valid_name_noslash: "valid_name e \<Longrightarrow> \<not> startswith e ''/''"
  by (cases e) (auto simp: valid_name_def)

lemma absolutize_abs: "startswith cwd ''/'' \<Longrightarrow> startswith (absolutize cwd p) ''/''"
proof (cases "startswith p ''/''")
  case True
  then show ?thesis by (simp add: absolutize_def)
next
  case False
  assume "startswith cwd ''/''"
  then obtain c where "cwd = CHR ''/'' # c" by (cases cwd) (auto simp: starts_slash)
  then show ?thesis using False by (simp add: absolutize_def join_noslash)
qed

lemma absolutize_join:
  assumes "valid_name e" "p \<noteq> []"
  shows "absolutize cwd (os_path_join p e) = os_path_join (absolutize cwd p) e"
proof -
  have e: "\<not> startswith e ''/''" using assms(1) by (rule valid_name_noslash)
  obtain a p' where p: "p = a # p'" using assms(2) by (cases p) auto
  have j: "os_path_join p e = p @ (if last p = CHR ''/'' then [] else ''/'') @ e"
    using e assms(2) by (simp add: join_noslash)
  show ?thesis
  proof (cases "a = CHR ''/''")
    case True
    then have "startswith p ''/''" "startswith (os_path_join p e) ''/''"
      unfolding j by (simp_all add: p)
    then show ?thesis by (simp add: absolutize_def)
  next
    case False
    then have np: "\<not> startswith p ''/''" "\<not> startswith (os_path_join p e) ''/''"
      unfolding j by (simp_all add: p)
    have "os_path_join cwd (os_path_join p e)
            = (if cwd = [] \<or> last cwd = CHR ''/'' then cwd else cwd @ ''/'') @ os_path_join p e"
      using np(2) by (rule join_noslash)
    moreover have "os_path_join cwd p
            = (if cwd = [] \<or> last cwd = CHR ''/'' then cwd else cwd @ ''/'') @ p"
      using np(1) by (rule join_noslash)
    moreover have "os_path_join ((if cwd = [] \<or> last cwd = CHR ''/'' then cwd else cwd @ ''/'') @ p) e
            = ((if cwd = [] \<or> last cwd = CHR ''/'' then cwd else cwd @ ''/'') @ p)
               @ (if last p = CHR ''/'' then [] else ''/'') @ e"
      using e assms(2) by (simp add: join_noslash)
    ultimately show ?thesis using np by (simp add: absolutize_def j)
  qed
qed

lemma absolutize_ne: "p \<noteq> [] \<Longrightarrow> absolutize cwd p \<noteq> []"
  by (auto simp: absolutize_def os_path_join_def split: if_splits)

lemma step_cases:
  "normpath_step k x acc = acc \<or> (normpath_step k x acc = acc @ [x] \<and> x \<noteq> [])
     \<or> normpath_step k x acc = butlast acc"
  unfolding normpath_step_def by simp

lemma step_inv:
  assumes "\<forall>c \<in> set acc. c \<noteq> [] \<and> CHR ''/'' \<notin> set c" "CHR ''/'' \<notin> set x"
  shows "\<forall>c \<in> set (normpath_step k x acc). c \<noteq> [] \<and> CHR ''/'' \<notin> set c"
proof -
  consider "normpath_step k x acc = acc" | "normpath_step k x acc = acc @ [x]" "x \<noteq> []"
    | "normpath_step k x acc = butlast acc"
    using step_cases by blast
  then show ?thesis
  proof cases
    case 1 then show ?thesis using assms by simp
  next
    case 2 then show ?thesis using assms by simp
  next
    case 3 then show ?thesis using assms by (auto dest: in_set_butlastD)
  qed
qed

definition clean_comps :: "string list \<Rightarrow> bool" where
  "clean_comps cs = (\<forall>c \<in> set cs. c \<noteq> [] \<and> CHR ''/'' \<notin> set c)"

lemma fold_step_clean:
  "clean_comps acc \<Longrightarrow> (\<forall>x \<in> set xs. CHR ''/'' \<notin> set x)
    \<Longrightarrow> clean_comps (fold (normpath_step k) xs acc)"
proof (induction xs arbitrary: acc)
  case Nil then show ?case by simp
next
  case (Cons x xs)
  have x: "CHR ''/'' \<notin> set x" and xs: "\<forall>x \<in> set xs. CHR ''/'' \<notin> set x"
    using Cons.prems(2) by simp_all
  have "clean_comps (normpath_step k x acc)"
    using step_inv [of acc x k] Cons.prems(1) x unfolding clean_comps_def by blast
  from Cons.IH [OF this xs] show ?case by simp
qed

lemma normpath_comps_clean: "clean_comps (normpath_comps p)"
proof -
  have "clean_comps []" by (simp add: clean_comps_def)
  moreover have "\<forall>x \<in> set (split_sep p). CHR ''/'' \<notin> set x"
    using split_sep_elems by blast
  ultimately show ?thesis
    unfolding normpath_comps_def by (rule fold_step_clean)
qed

lemma split_sep_join_clean:
  "clean_comps cs \<Longrightarrow> filter (\<lambda>x. x \<noteq> []) (split_sep (sep_join cs)) = cs"
proof (induction cs rule: sep_join.induct)
  case 1 then show ?case by simp
next
  case (2 x) then show ?case by (simp add: split_sep_noslash clean_comps_def)
next
  case (3 x y r)
  then show ?case
    using split_sep_app [of x "sep_join (y # r)"]
    by (simp add: split_sep_noslash clean_comps_def)
qed

lemma split_sep_slashes:
  "filter (\<lambda>x. x \<noteq> []) (split_sep (replicate k (CHR ''/'') @ s))
     = filter (\<lambda>x. x \<noteq> []) (split_sep s)"
  by (induction k) auto

lemma initial_slashes_pos: "startswith p ''/'' \<Longrightarrow> 0 < initial_slashes_of p"
  by (simp add: initial_slashes_of_def)

lemma abs_comps_eq:
  assumes "startswith cwd ''/''"
  shows "abs_comps cwd p = normpath_comps (absolutize cwd p)"
proof -
  let ?a = "absolutize cwd p"
  have a: "startswith ?a ''/''" using absolutize_abs [OF assms] .
  then have ne: "?a \<noteq> []" by (auto simp: starts_slash)
  have k: "0 < initial_slashes_of ?a" using initial_slashes_pos [OF a] .
  then have "replicate (initial_slashes_of ?a) (CHR ''/'') @ sep_join (normpath_comps ?a) \<noteq> []"
    by simp
  then have "os_path_abspath cwd p
       = replicate (initial_slashes_of ?a) (CHR ''/'') @ sep_join (normpath_comps ?a)"
    using ne unfolding os_path_abspath_def os_path_normpath_def absolutize_def [symmetric]
    by (simp add: Let_def)
  then show ?thesis
    using split_sep_slashes [of "initial_slashes_of ?a" "sep_join (normpath_comps ?a)"]
          split_sep_join_clean [OF normpath_comps_clean [of ?a]]
    by (simp add: abs_comps_def)
qed

lemma abs_comps_join:
  assumes "startswith cwd ''/''" "valid_name e" "p \<noteq> []"
  shows "abs_comps cwd (os_path_join p e) = abs_comps cwd p @ [e]"
  using assms absolutize_join [of e p cwd] normpath_comps_join [of e "absolutize cwd p"]
        absolutize_ne [of p cwd]
  by (simp add: abs_comps_eq)

lemma join_ne: "valid_name e \<Longrightarrow> os_path_join p e \<noteq> []"
  by (auto simp: join_valid valid_name_def)

lemma joins_ne: "p \<noteq> [] \<Longrightarrow> list_all valid_name rel \<Longrightarrow> joins p rel \<noteq> []"
  unfolding joins_def
  by (induction rel arbitrary: p) (auto simp: join_ne)

lemma joins_snoc: "joins p (rel @ [e]) = os_path_join (joins p rel) e"
  by (simp add: joins_def)

lemma abs_comps_joins:
  assumes "startswith cwd ''/''" "p \<noteq> []"
  shows "list_all valid_name rel \<Longrightarrow> abs_comps cwd (joins p rel) = abs_comps cwd p @ rel"
proof (induction rel rule: rev_induct)
  case Nil then show ?case by (simp add: joins_def)
next
  case (snoc e rel)
  then have v: "valid_name e" "list_all valid_name rel" by simp_all
  from abs_comps_join [OF assms(1) v(1) joins_ne [OF assms(2) v(2)]] snoc.IH [OF v(2)]
  show ?case by (simp add: joins_snoc)
qed

lemma commonprefix_append: "commonprefix xs (xs @ ys) = xs"
  by (induction xs) auto

definition rel_str :: "string list \<Rightarrow> string" where
  "rel_str rel = (if rel = [] then ''.'' else sep_join rel)"

lemma relpath_joins:
  assumes "startswith cwd ''/''" "p \<noteq> []" "list_all valid_name rel"
    "os_path_abspath cwd start = os_path_abspath cwd p"
  shows "os_path_relpath cwd (joins p rel) start = Inr (rel_str rel)"
proof -
  have 1: "filter (\<lambda>x. x \<noteq> []) (split_sep (os_path_abspath cwd (joins p rel)))
             = abs_comps cwd p @ rel"
    using abs_comps_joins [OF assms(1,2,3)] by (simp add: abs_comps_def)
  have 2: "filter (\<lambda>x. x \<noteq> []) (split_sep (os_path_abspath cwd start)) = abs_comps cwd p"
    using assms(4) by (simp add: abs_comps_def)
  show ?thesis
    using joins_ne [OF assms(2,3)]
    unfolding os_path_relpath_def 1 2
    by (simp add: Let_def commonprefix_append rel_str_def)
qed

section \<open>The traversal in terms of the tree\<close>

text \<open>
  A tree is well formed when the names in each directory are distinct and are names a
  listing can return. \<open>query_path rel e is_dir\<close> is the string the traversal hands to
  the registry for the entry \<open>e\<close> of the directory at the relative path \<open>rel\<close>, whose
  \<^verbatim>\<open>relative_current_dir\<close> is \<open>rel_str rel\<close>. \<open>kept\<close> lists the relative paths of the files
  the traversal keeps, in its order, and \<open>blocked\<close> says that the traversal comes to a
  directory it cannot list.
\<close>

fun wf_node :: "node \<Rightarrow> bool" where
  "wf_node (File r ls) = True"
| "wf_node (Dir l es) =
     (distinct (map fst es) \<and> (\<forall>(e, n) \<in> set es. valid_name e \<and> wf_node n))"

definition query_path :: "string list \<Rightarrow> string \<Rightarrow> bool \<Rightarrow> string" where
  "query_path rel e is_dir =
     ''/'' @ os_path_join (rel_str rel) e @ (if is_dir then ''/'' else [])"

definition reports_ignored :: "'spec GitIgnoreSpec \<Rightarrow> 'spec GitIgnorer \<Rightarrow> string \<Rightarrow> bool" where
  "reports_ignored lib ig q = (GitIgnorer_ignore lib ig q = Inr True)"

fun kept :: "'spec GitIgnoreSpec \<Rightarrow> 'spec GitIgnorer \<Rightarrow> string list \<Rightarrow> node \<Rightarrow> string list list" where
  "kept lib ig rel (File r ls) = []"
| "kept lib ig rel (Dir l es) =
     map (\<lambda>(e, n). rel @ [e])
       (filter (\<lambda>(e, n). \<not> isdir n \<and> \<not> reports_ignored lib ig (query_path rel e False)) es)
     @ concat (map (\<lambda>(e, n). kept lib ig (rel @ [e]) n)
         (filter (\<lambda>(e, n). isdir n \<and> \<not> reports_ignored lib ig (query_path rel e True)) es))"

fun blocked :: "'spec GitIgnoreSpec \<Rightarrow> 'spec GitIgnorer \<Rightarrow> string list \<Rightarrow> node \<Rightarrow> bool" where
  "blocked lib ig rel (File r ls) = True"
| "blocked lib ig rel (Dir l es) =
     (\<not> l \<or> (\<exists>(e, n) \<in> set es. isdir n \<and> \<not> reports_ignored lib ig (query_path rel e True)
                  \<and> blocked lib ig (rel @ [e]) n))"

lemma query_path_not_root:
  "valid_name e \<Longrightarrow> query_path rel e d \<noteq> ''/'' \<and> query_path rel e d \<noteq> []"
  using join_ne [of e "rel_str rel"] by (simp add: query_path_def)

lemma ignore_total:
  "valid_name e \<Longrightarrow>
     GitIgnorer_ignore lib ig (query_path rel e d) = Inr (reports_ignored lib ig (query_path rel e d))"
  using query_path_not_root [of e rel d]
  by (simp add: reports_ignored_def GitIgnorer_ignore_def ignore_loop_eq)

lemma select_dirs_char:
  "\<forall>(e, n) \<in> set es. valid_name e \<Longrightarrow>
   select_dirs lib ig cur (rel_str rel) es =
     Inr (map (\<lambda>(e, n). (os_path_join cur e, n))
            (filter (\<lambda>(e, n). isdir n \<and> \<not> reports_ignored lib ig (query_path rel e True)) es))"
proof (induction es)
  case Nil
  then show ?case by simp
next
  case (Cons en es)
  obtain e n where en: "en = (e, n)" by (cases en)
  have v: "valid_name e" using Cons.prems by (simp add: en)
  have IH: "select_dirs lib ig cur (rel_str rel) es =
     Inr (map (\<lambda>(e, n). (os_path_join cur e, n))
            (filter (\<lambda>(e, n). isdir n \<and> \<not> reports_ignored lib ig (query_path rel e True)) es))"
    using Cons by simp
  have q: "GitIgnorer_ignore lib ig (CHR ''/'' # os_path_join (rel_str rel) e @ ''/'')
             = Inr (reports_ignored lib ig (query_path rel e True))"
    using ignore_total [OF v, of lib ig rel True] by (simp add: query_path_def)
  show ?case
    unfolding en using join_ne [OF v, of cur] IH q
    by (simp add: Let_def)
qed

lemma select_files_char:
  "\<forall>(e, n) \<in> set es. valid_name e \<Longrightarrow>
   select_files lib ig cur (rel_str rel) es =
     Inr (map (\<lambda>(e, n). os_path_join cur e)
            (filter (\<lambda>(e, n). \<not> isdir n \<and> \<not> reports_ignored lib ig (query_path rel e False)) es))"
proof (induction es)
  case Nil
  then show ?case by simp
next
  case (Cons en es)
  obtain e n where en: "en = (e, n)" by (cases en)
  have v: "valid_name e" using Cons.prems by (simp add: en)
  have IH: "select_files lib ig cur (rel_str rel) es =
     Inr (map (\<lambda>(e, n). os_path_join cur e)
            (filter (\<lambda>(e, n). \<not> isdir n \<and> \<not> reports_ignored lib ig (query_path rel e False)) es))"
    using Cons by simp
  have q: "GitIgnorer_ignore lib ig (CHR ''/'' # os_path_join (rel_str rel) e)
             = Inr (reports_ignored lib ig (query_path rel e False))"
    using ignore_total [OF v, of lib ig rel False] by (simp add: query_path_def)
  show ?case
    unfolding en using join_ne [OF v, of cur] IH q
    by (simp add: Let_def)
qed

lemma concat_results_char:
  "\<forall>x \<in> set xs. f x = (if B x then Inl IoError else Inr (g x)) \<Longrightarrow>
   concat_results (map f xs) =
     (if \<exists>x \<in> set xs. B x then Inl IoError else Inr (concat (map g xs)))"
  by (induction xs) auto

declare traverse.simps [simp del]

lemma traverse_char:
  assumes cwd: "startswith cwd ''/''" and root: "root \<noteq> []"
    and same: "os_path_abspath cwd (project_root (config_manager self)) = os_path_abspath cwd root"
  shows "wf_node nd \<Longrightarrow> list_all valid_name rel \<Longrightarrow>
     traverse lib cwd self (joins root rel) nd =
       (if blocked lib (ignorer self) rel nd then Inl IoError
        else Inr (map (joins root) (kept lib (ignorer self) rel nd)))"
proof (induction nd arbitrary: rel)
  case (File r ls)
  show ?case by (simp add: traverse.simps)
next
  case (Dir l es)
  let ?ig = "ignorer self"
  let ?cur = "joins root rel"
  let ?D = "\<lambda>(e, n). isdir n \<and> \<not> reports_ignored lib ?ig (query_path rel e True)"
  let ?F = "\<lambda>(e, n). \<not> isdir n \<and> \<not> reports_ignored lib ?ig (query_path rel e False)"
  have names: "\<forall>(e, n) \<in> set es. valid_name e" using Dir.prems(1) by auto
  have cur_ne: "?cur \<noteq> []" using joins_ne [OF root Dir.prems(2)] .
  have rp: "os_path_relpath cwd ?cur (project_root (config_manager self)) = Inr (rel_str rel)"
    using relpath_joins [OF cwd root Dir.prems(2) same] .
  show ?case
  proof (cases l)
    case False
    then show ?thesis using cur_ne by (simp add: traverse.simps)
  next
    case True
    have sub: "\<forall>x \<in> set (map (\<lambda>(e, n). (os_path_join ?cur e, rel @ [e], n)) (filter ?D es)).
                 (\<lambda>(d, r, n). traverse lib cwd self d n) x =
                   (if (\<lambda>(d, r, n). blocked lib ?ig r n) x then Inl IoError
                    else Inr ((\<lambda>(d, r, n). map (joins root) (kept lib ?ig r n)) x))"
    proof
      fix x assume "x \<in> set (map (\<lambda>(e, n). (os_path_join ?cur e, rel @ [e], n)) (filter ?D es))"
      then obtain e n where en: "(e, n) \<in> set es" and x: "x = (os_path_join ?cur e, rel @ [e], n)"
        by auto
      have wn: "wf_node n" and ve: "valid_name e" using Dir.prems(1) en by auto
      have vr: "list_all valid_name (rel @ [e])" using Dir.prems(2) ve by simp
      have "snd (e, n) = n" by simp
      from Dir.IH [OF en _ wn vr]
      have "traverse lib cwd self (joins root (rel @ [e])) n =
              (if blocked lib ?ig (rel @ [e]) n then Inl IoError
               else Inr (map (joins root) (kept lib ?ig (rel @ [e]) n)))"
        by simp
      then show "(\<lambda>(d, r, n). traverse lib cwd self d n) x =
                   (if (\<lambda>(d, r, n). blocked lib ?ig r n) x then Inl IoError
                    else Inr ((\<lambda>(d, r, n). map (joins root) (kept lib ?ig r n)) x))"
        by (simp add: x joins_snoc)
    qed
    have m1: "map (\<lambda>(d, n). traverse lib cwd self d n)
                (map (\<lambda>(e, n). (os_path_join ?cur e, n)) (filter ?D es))
              = map (\<lambda>(d, r, n). traverse lib cwd self d n)
                  (map (\<lambda>(e, n). (os_path_join ?cur e, rel @ [e], n)) (filter ?D es))"
      by (simp add: case_prod_unfold comp_def)
    have cr: "concat_results (map (\<lambda>(d, n). traverse lib cwd self d n)
                (map (\<lambda>(e, n). (os_path_join ?cur e, n)) (filter ?D es)))
              = (if \<exists>(e, n) \<in> set es. ?D (e, n) \<and> blocked lib ?ig (rel @ [e]) n
                 then Inl IoError
                 else Inr (concat (map (\<lambda>(e, n). map (joins root) (kept lib ?ig (rel @ [e]) n))
                                    (filter ?D es))))"
      unfolding m1 concat_results_char [OF sub]
      by (simp add: case_prod_unfold comp_def) force
    have bl: "blocked lib ?ig rel (Dir l es)
                = (\<exists>(e, n) \<in> set es. ?D (e, n) \<and> blocked lib ?ig (rel @ [e]) n)"
      using True by auto
    have kp: "map (joins root) (kept lib ?ig rel (Dir l es))
               = map (\<lambda>(e, n). os_path_join ?cur e) (filter ?F es)
                 @ concat (map (\<lambda>(e, n). map (joins root) (kept lib ?ig (rel @ [e]) n))
                                    (filter ?D es))"
      by (simp add: map_concat comp_def case_prod_unfold joins_snoc)
    have tv: "traverse lib cwd self ?cur (Dir l es) =
        (case concat_results (map (\<lambda>(d, n). traverse lib cwd self d n)
                (map (\<lambda>(e, n). (os_path_join ?cur e, n)) (filter ?D es))) of
           Inl err \<Rightarrow> Inl err
         | Inr subdir_files \<Rightarrow>
             Inr (map (\<lambda>(e, n). os_path_join ?cur e) (filter ?F es) @ subdir_files))"
      by (subst traverse.simps)
         (simp only: os_listdir.simps True cur_ne rp select_dirs_char [OF names]
            select_files_char [OF names] sum.case simp_thms if_False)
    show ?thesis
      unfolding tv cr bl kp by simp
  qed
qed

section \<open>Paths into the tree\<close>

text \<open>
  \<open>lookup nd s\<close> is the node reached from \<open>nd\<close> along the names \<open>s\<close>.
  \<open>included lib ig rel nd s\<close> says that \<open>s\<close> leads from the directory \<open>nd\<close>, which lies
  at \<open>rel\<close>, to a file, and that the registry reports neither a directory on the way
  nor the file itself ignored. \<open>all_listable\<close> says that every directory of the tree
  can be listed.
\<close>

fun lookup :: "node \<Rightarrow> string list \<Rightarrow> node option" where
  "lookup nd [] = Some nd"
| "lookup (File r ls) (e # s) = None"
| "lookup (Dir l es) (e # s) = (case map_of es e of None \<Rightarrow> None | Some n \<Rightarrow> lookup n s)"

fun included ::
  "'spec GitIgnoreSpec \<Rightarrow> 'spec GitIgnorer \<Rightarrow> string list \<Rightarrow> node \<Rightarrow> string list \<Rightarrow> bool" where
  "included lib ig rel (File r ls) s = False"
| "included lib ig rel (Dir l es) [] = False"
| "included lib ig rel (Dir l es) [e] =
     (case map_of es e of
        None \<Rightarrow> False
      | Some n \<Rightarrow> \<not> isdir n \<and> \<not> reports_ignored lib ig (query_path rel e False))"
| "included lib ig rel (Dir l es) (e # e' # s) =
     (case map_of es e of
        None \<Rightarrow> False
      | Some n \<Rightarrow> isdir n \<and> \<not> reports_ignored lib ig (query_path rel e True)
                  \<and> included lib ig (rel @ [e]) n (e' # s))"

fun all_listable :: "node \<Rightarrow> bool" where
  "all_listable (File r ls) = True"
| "all_listable (Dir l es) = (l \<and> (\<forall>(e, n) \<in> set es. all_listable n))"

lemma included_Nil [simp]: "included lib ig rel nd [] = False"
  by (cases nd) auto

lemma isdir_iff: "isdir n = (\<exists>l es. n = Dir l es)"
  by (cases n) auto

lemma not_isdir_iff: "(\<not> isdir n) = (\<exists>r ls. n = File r ls)"
  by (cases n) auto

lemma included_is_file:
  "included lib ig rel nd s \<Longrightarrow> \<exists>r ls. lookup nd s = Some (File r ls)"
proof (induction lib ig rel nd s rule: included.induct)
  case (1 lib ig rel r ls s)
  then show ?case by simp
next
  case (2 lib ig rel l es)
  then show ?case by simp
next
  case (3 lib ig rel l es e)
  then show ?case by (auto simp: not_isdir_iff split: option.splits)
next
  case (4 lib ig rel l es e e' s)
  then show ?case by (auto split: option.splits)
qed

lemma lookup_valid:
  "wf_node nd \<Longrightarrow> lookup nd s = Some n \<Longrightarrow> list_all valid_name s \<and> wf_node n"
proof (induction nd s rule: lookup.induct)
  case (1 nd)
  then show ?case by simp
next
  case (2 r ls e s)
  then show ?case by simp
next
  case (3 l es e s)
  from "3.prems"(2) obtain m where m: "map_of es e = Some m" "lookup m s = Some n"
    by (auto split: option.splits)
  then have "(e, m) \<in> set es" by (simp add: map_of_SomeD)
  with "3.prems"(1) have "valid_name e" "wf_node m" by auto
  with "3.IH" [OF m(1) \<open>wf_node m\<close> m(2)] show ?case by simp
qed

lemma blocked_all_listable:
  "all_listable nd \<Longrightarrow> isdir nd \<Longrightarrow> \<not> blocked lib ig rel nd"
proof (induction nd arbitrary: rel)
  case (File r ls)
  then show ?case by simp
next
  case (Dir l es)
  have "\<not> blocked lib ig (rel @ [e]) n" if "(e, n) \<in> set es" "isdir n" for e n
    using Dir.IH [of "(e, n)" n "rel @ [e]"] that Dir.prems(1) by auto
  then show ?case using Dir.prems(1) by auto
qed

lemma kept_Dir_mem:
  "p \<in> set (kept lib ig rel (Dir l es)) \<longleftrightarrow>
     (\<exists>e n. (e, n) \<in> set es \<and>
        ((\<not> isdir n \<and> \<not> reports_ignored lib ig (query_path rel e False) \<and> p = rel @ [e])
         \<or> (isdir n \<and> \<not> reports_ignored lib ig (query_path rel e True)
              \<and> p \<in> set (kept lib ig (rel @ [e]) n))))"
  by (simp add: image_iff Bex_def) blast

lemma included_single:
  "distinct (map fst es) \<Longrightarrow>
   included lib ig rel (Dir l es) [e] \<longleftrightarrow>
     (\<exists>n. (e, n) \<in> set es \<and> \<not> isdir n \<and> \<not> reports_ignored lib ig (query_path rel e False))"
proof -
  assume d: "distinct (map fst es)"
  show ?thesis
  proof (cases "map_of es e")
    case None
    then have "\<And>n. (e, n) \<notin> set es" using d by (metis map_of_eq_Some_iff option.distinct(1))
    with None show ?thesis by simp
  next
    case (Some m)
    then have "\<And>n. (e, n) \<in> set es \<longleftrightarrow> n = m"
      using d by (metis map_of_eq_Some_iff option.inject)
    with Some show ?thesis by simp
  qed
qed

lemma included_deeper:
  "distinct (map fst es) \<Longrightarrow>
   included lib ig rel (Dir l es) (e # e' # s) \<longleftrightarrow>
     (\<exists>n. (e, n) \<in> set es \<and> isdir n \<and> \<not> reports_ignored lib ig (query_path rel e True)
          \<and> included lib ig (rel @ [e]) n (e' # s))"
proof -
  assume d: "distinct (map fst es)"
  show ?thesis
  proof (cases "map_of es e")
    case None
    then have "\<And>n. (e, n) \<notin> set es" using d by (metis map_of_eq_Some_iff option.distinct(1))
    with None show ?thesis by simp
  next
    case (Some m)
    then have "\<And>n. (e, n) \<in> set es \<longleftrightarrow> n = m"
      using d by (metis map_of_eq_Some_iff option.inject)
    with Some show ?thesis by simp
  qed
qed

lemma kept_set:
  "wf_node nd \<Longrightarrow> set (kept lib ig rel nd) = {rel @ s | s. included lib ig rel nd s}"
proof (induction nd arbitrary: rel)
  case (File r ls)
  then show ?case by simp
next
  case (Dir l es)
  have dist: "distinct (map fst es)" using Dir.prems by simp
  have IH: "set (kept lib ig (rel @ [e]) n) = {(rel @ [e]) @ s | s. included lib ig (rel @ [e]) n s}"
    if "(e, n) \<in> set es" for e n
  proof -
    have "wf_node n" using Dir.prems that by auto
    moreover have "n \<in> Basic_BNFs.snds (e, n)" by simp
    ultimately show ?thesis using Dir.IH [OF that] by blast
  qed
  show ?case
  proof (intro set_eqI iffI)
    fix p assume "p \<in> set (kept lib ig rel (Dir l es))"
    then obtain e n where en: "(e, n) \<in> set es"
      and c: "(\<not> isdir n \<and> \<not> reports_ignored lib ig (query_path rel e False) \<and> p = rel @ [e])
         \<or> (isdir n \<and> \<not> reports_ignored lib ig (query_path rel e True)
              \<and> p \<in> set (kept lib ig (rel @ [e]) n))"
      unfolding kept_Dir_mem by blast
    from c show "p \<in> {rel @ s | s. included lib ig rel (Dir l es) s}"
    proof
      assume f: "\<not> isdir n \<and> \<not> reports_ignored lib ig (query_path rel e False) \<and> p = rel @ [e]"
      then have "included lib ig rel (Dir l es) [e]"
        unfolding included_single [OF dist] using en by blast
      with f show ?thesis by blast
    next
      assume d: "isdir n \<and> \<not> reports_ignored lib ig (query_path rel e True)
              \<and> p \<in> set (kept lib ig (rel @ [e]) n)"
      then obtain s where s: "p = (rel @ [e]) @ s" "included lib ig (rel @ [e]) n s"
        unfolding IH [OF en] by blast
      then obtain e' s' where s': "s = e' # s'" by (cases s) simp_all
      have "included lib ig rel (Dir l es) (e # e' # s')"
        unfolding included_deeper [OF dist] using en d s(2) s' by blast
      moreover have "p = rel @ (e # e' # s')" using s(1) s' by simp
      ultimately show ?thesis by blast
    qed
  next
    fix p assume "p \<in> {rel @ s | s. included lib ig rel (Dir l es) s}"
    then obtain s where s: "p = rel @ s" "included lib ig rel (Dir l es) s" by blast
    then obtain e t where et: "s = e # t" by (cases s) simp_all
    show "p \<in> set (kept lib ig rel (Dir l es))"
    proof (cases t)
      case Nil
      from s(2) obtain n where "(e, n) \<in> set es" "\<not> isdir n"
        "\<not> reports_ignored lib ig (query_path rel e False)"
        unfolding et Nil included_single [OF dist] by blast
      then show ?thesis unfolding kept_Dir_mem using s(1) et Nil by blast
    next
      case (Cons e' t')
      from s(2) obtain n where n: "(e, n) \<in> set es" "isdir n"
        "\<not> reports_ignored lib ig (query_path rel e True)"
        "included lib ig (rel @ [e]) n (e' # t')"
        unfolding et Cons included_deeper [OF dist] by blast
      have "p = (rel @ [e]) @ (e' # t')" using s(1) et Cons by simp
      then have "p \<in> set (kept lib ig (rel @ [e]) n)"
        unfolding IH [OF n(1)] using n(4) by blast
      then show ?thesis unfolding kept_Dir_mem using n by blast
    qed
  qed
qed

lemma joins_append: "joins root (a @ b) = joins (joins root a) b"
  by (simp add: joins_def)

lemma joins_inj:
  assumes "root \<noteq> []" "list_all valid_name a" "list_all valid_name b"
    "joins root a = joins root b"
  shows "a = b"
proof -
  have c: "startswith ''/'' ''/''" by simp
  have 1: "abs_comps ''/'' (joins root a) = abs_comps ''/'' root @ a"
    by (rule abs_comps_joins [OF c assms(1) assms(2)])
  have 2: "abs_comps ''/'' (joins root b) = abs_comps ''/'' root @ b"
    by (rule abs_comps_joins [OF c assms(1) assms(3)])
  have "abs_comps ''/'' root @ a = abs_comps ''/'' root @ b"
    by (simp only: 1 [symmetric] 2 [symmetric] assms(4))
  then show ?thesis by (simp only: same_append_eq)
qed

lemma included_valid:
  "wf_node nd \<Longrightarrow> included lib ig rel nd s \<Longrightarrow> list_all valid_name s"
  using included_is_file lookup_valid by blast

lemma kept_valid:
  assumes "wf_node nd" "list_all valid_name rel" "p \<in> set (kept lib ig rel nd)"
  shows "list_all valid_name p"
proof -
  from assms(3) obtain s where "p = rel @ s" "included lib ig rel nd s"
    unfolding kept_set [OF assms(1)] by blast
  then show ?thesis using included_valid [OF assms(1)] assms(2) by simp
qed

lemma kept_shape:
  assumes "wf_node nd" "p \<in> set (kept lib ig rel nd)"
  shows "\<exists>e s. p = rel @ e # s"
proof -
  from assms(2) obtain s where s: "p = rel @ s" "included lib ig rel nd s"
    unfolding kept_set [OF assms(1)] by blast
  then show ?thesis by (cases s) simp_all
qed

lemma distinct_concat_by_name:
  "distinct (map fst xs) \<Longrightarrow>
   (\<And>e n. (e, n) \<in> set xs \<Longrightarrow> distinct (g e n) \<and> (\<forall>p \<in> set (g e n). \<exists>s. p = rel @ e # s)) \<Longrightarrow>
   distinct (concat (map (\<lambda>(e, n). g e n) xs))"
proof (induction xs)
  case Nil
  then show ?case by simp
next
  case (Cons x xs)
  obtain e n where x: "x = (e, n)" by (cases x)
  have d: "distinct (map fst xs)" and ne: "e \<notin> fst ` set xs"
    using Cons.prems(1) by (simp_all add: x)
  have here: "distinct (g e n)" "\<forall>p \<in> set (g e n). \<exists>s. p = rel @ e # s"
    using Cons.prems(2) [of e n] by (simp_all add: x)
  have rest: "distinct (concat (map (\<lambda>(e, n). g e n) xs))"
  proof (rule Cons.IH [OF d])
    fix e' n' assume "(e', n') \<in> set xs"
    then show "distinct (g e' n') \<and> (\<forall>p \<in> set (g e' n'). \<exists>s. p = rel @ e' # s)"
      using Cons.prems(2) [of e' n'] by simp
  qed
  have disj: "set (g e n) \<inter> set (concat (map (\<lambda>(e, n). g e n) xs)) = {}"
  proof (rule ccontr)
    assume "\<not> ?thesis"
    then obtain p where p1: "p \<in> set (g e n)"
      and p2: "p \<in> set (concat (map (\<lambda>(e, n). g e n) xs))"
      by blast
    from p2 obtain y where y: "y \<in> set xs" "p \<in> set (case y of (e, n) \<Rightarrow> g e n)"
      by auto
    obtain e' n' where y': "y = (e', n')" by (cases y)
    have m: "(e', n') \<in> set xs" "p \<in> set (g e' n')" using y by (simp_all add: y')
    have "e' \<noteq> e" using ne m(1) by force
    moreover obtain s where "p = rel @ e # s" using here(2) p1 by blast
    moreover obtain s' where "p = rel @ e' # s'"
      using Cons.prems(2) [of e' n'] m by auto
    ultimately show False by simp
  qed
  have "concat (map (\<lambda>(e, n). g e n) (x # xs)) = g e n @ concat (map (\<lambda>(e, n). g e n) xs)"
    by (simp add: x)
  then show ?case
    using here(1) rest disj by simp
qed

lemma distinct_names_map:
  "distinct (map fst xs) \<Longrightarrow> distinct (map (\<lambda>(e, n). rel @ [e]) (filter P xs))"
proof (induction xs)
  case Nil
  then show ?case by simp
next
  case (Cons x xs)
  obtain e n where x: "x = (e, n)" by (cases x)
  have "e \<notin> fst ` set xs" using Cons.prems by (simp add: x)
  then have "rel @ [e] \<notin> (\<lambda>(e, n). rel @ [e]) ` set (filter P xs)" by force
  then show ?case using Cons by (simp add: x)
qed

lemma kept_distinct: "wf_node nd \<Longrightarrow> distinct (kept lib ig rel nd)"
proof (induction nd arbitrary: rel)
  case (File r ls)
  then show ?case by simp
next
  case (Dir l es)
  let ?D = "\<lambda>(e, n). isdir n \<and> \<not> reports_ignored lib ig (query_path rel e True)"
  let ?F = "\<lambda>(e, n). \<not> isdir n \<and> \<not> reports_ignored lib ig (query_path rel e False)"
  have dist: "distinct (map fst es)" using Dir.prems by simp
  have wn: "wf_node n" if "(e, n) \<in> set es" for e n using Dir.prems that by auto
  have IH: "distinct (kept lib ig (rel @ [e]) n)" if "(e, n) \<in> set es" for e n
  proof -
    have "n \<in> Basic_BNFs.snds (e, n)" by simp
    then show ?thesis using Dir.IH [OF that _ wn [OF that]] by blast
  qed
  have shape: "\<forall>p \<in> set (kept lib ig (rel @ [e]) n). \<exists>s. p = rel @ e # s"
    if "(e, n) \<in> set es" for e n
    using kept_shape [OF wn [OF that], of _ lib ig "rel @ [e]"] by fastforce
  have 1: "distinct (map (\<lambda>(e, n). rel @ [e]) (filter ?F es))"
    using distinct_names_map [OF dist] .
  have "distinct (concat (map (\<lambda>(e, n). kept lib ig (rel @ [e]) n) (filter ?D es)))"
  proof (rule distinct_concat_by_name [where rel = rel])
    show "distinct (map fst (filter ?D es))" using dist by (rule distinct_map_filter)
  next
    fix e n assume "(e, n) \<in> set (filter ?D es)"
    then have "(e, n) \<in> set es" by simp
    then show "distinct (kept lib ig (rel @ [e]) n)
        \<and> (\<forall>p \<in> set (kept lib ig (rel @ [e]) n). \<exists>s. p = rel @ e # s)"
      using IH shape by blast
  qed
  moreover have "set (map (\<lambda>(e, n). rel @ [e]) (filter ?F es))
      \<inter> set (concat (map (\<lambda>(e, n). kept lib ig (rel @ [e]) n) (filter ?D es))) = {}"
  proof (rule ccontr)
    assume "\<not> ?thesis"
    then obtain p where p1: "p \<in> set (map (\<lambda>(e, n). rel @ [e]) (filter ?F es))"
      and p2: "p \<in> set (concat (map (\<lambda>(e, n). kept lib ig (rel @ [e]) n) (filter ?D es)))"
      by blast
    from p1 have l1: "length p = Suc (length rel)" by auto
    from p2 obtain e n where en: "(e, n) \<in> set es" "p \<in> set (kept lib ig (rel @ [e]) n)"
      by auto
    then obtain e' s where "p = (rel @ [e]) @ e' # s"
      using kept_shape [OF wn [OF en(1)] en(2)] by blast
    then show False using l1 by simp
  qed
  ultimately show ?case using 1 by simp
qed

lemma included_through:
  "included lib ig rel nd (a @ e # e' # s) \<Longrightarrow>
     \<exists>l es n. lookup nd a = Some (Dir l es) \<and> map_of es e = Some n \<and> isdir n
        \<and> \<not> reports_ignored lib ig (query_path (rel @ a) e True)"
proof (induction a arbitrary: rel nd)
  case Nil
  then obtain l es where nd: "nd = Dir l es" by (cases nd) simp_all
  with Nil show ?case by (simp split: option.splits)
next
  case (Cons x a)
  then obtain l es where nd: "nd = Dir l es" by (cases nd) simp_all
  obtain y t where yt: "a @ e # e' # s = y # t" by (cases a) simp_all
  from Cons.prems obtain m where m: "map_of es x = Some m"
    "included lib ig (rel @ [x]) m (a @ e # e' # s)"
    by (simp add: nd yt split: option.splits)
  from Cons.IH [OF m(2)] show ?case by (simp add: nd m(1))
qed

text \<open>
  The assumptions on the environment: the working directory is an absolute path, the
  path of the project root is not empty, and the two accessors of the configuration
  manager name the same directory.
\<close>

definition root_ok :: "string \<Rightarrow> ConfigManager \<Rightarrow> bool" where
  "root_ok cwd cm =
     (startswith cwd ''/'' \<and> project_root_path cm \<noteq> []
      \<and> os_path_abspath cwd (project_root cm) = os_path_abspath cwd (project_root_path cm))"

lemma traverse_root_ok:
  assumes "root_ok cwd (config_manager self)" "wf_node nd" "list_all valid_name rel"
  shows "traverse lib cwd self (joins (project_root_path (config_manager self)) rel) nd =
       (if blocked lib (ignorer self) rel nd then Inl IoError
        else Inr (map (joins (project_root_path (config_manager self)))
                    (kept lib (ignorer self) rel nd)))"
  using assms(1) traverse_char [OF _ _ _ assms(2,3), of cwd "project_root_path (config_manager self)" self lib]
  unfolding root_ok_def by blast

lemma kept_Dir_joins:
  "map (joins root) (kept lib ig rel (Dir l es))
     = map (\<lambda>(e, n). os_path_join (joins root rel) e)
         (filter (\<lambda>(e, n). \<not> isdir n \<and> \<not> reports_ignored lib ig (query_path rel e False)) es)
       @ concat (map (\<lambda>(e, n). map (joins root) (kept lib ig (rel @ [e]) n))
           (filter (\<lambda>(e, n). isdir n \<and> \<not> reports_ignored lib ig (query_path rel e True)) es))"
  by (simp add: map_concat comp_def case_prod_unfold joins_snoc)

lemma joins_abs:
  "startswith c ''/'' \<Longrightarrow> list_all valid_name s \<Longrightarrow> startswith (joins c s) ''/''"
proof (induction s rule: rev_induct)
  case Nil
  then show ?case by (simp add: joins_def)
next
  case (snoc e s)
  then have a: "startswith (joins c s) ''/''" and v: "valid_name e" by simp_all
  then obtain t where "joins c s = CHR ''/'' # t" by (cases "joins c s") (simp_all add: starts_slash)
  then show ?case using v by (simp add: joins_snoc join_valid)
qed

lemma lookup_append:
  "lookup nd (a @ s) = (case lookup nd a of None \<Rightarrow> None | Some n \<Rightarrow> lookup n s)"
proof (induction nd a rule: lookup.induct)
  case (1 nd)
  then show ?case by simp
next
  case (2 r ls e s')
  then show ?case by simp
next
  case (3 l es e s')
  then show ?case by (cases "map_of es e") simp_all
qed

lemma lookup_child:
  "lookup nd a = Some (Dir l es) \<Longrightarrow> map_of es e = Some d
     \<Longrightarrow> lookup nd (a @ e # s) = lookup d s"
  by (simp add: lookup_append)

lemma select_dirs_skip:
  assumes "isdir d" "isdir d'"
    "GitIgnorer_ignore lib ig (''/'' @ os_path_join r e @ ''/'') = Inr True"
  shows "select_dirs lib ig cur r (es1 @ (e, d) # es2)
           = select_dirs lib ig cur r (es1 @ (e, d') # es2)"
proof (induction es1)
  case Nil
  show ?case using assms by (simp add: Let_def)
next
  case (Cons x es1)
  obtain e0 n0 where x: "x = (e0, n0)" by (cases x)
  show ?case using Cons by (simp add: x Let_def cong: sum.case_cong bool.case_cong)
qed

lemma select_files_skip:
  assumes "isdir d" "isdir d'"
  shows "select_files lib ig cur r (es1 @ (e, d) # es2)
           = select_files lib ig cur r (es1 @ (e, d') # es2)"
proof (induction es1)
  case Nil
  show ?case using assms by (simp add: Let_def)
next
  case (Cons x es1)
  obtain e0 n0 where x: "x = (e0, n0)" by (cases x)
  show ?case using Cons by (simp add: x Let_def cong: sum.case_cong bool.case_cong)
qed

section \<open>The pre-scan in terms of the tree\<close>

text \<open>
  \<open>gitignore_file es\<close> is the entry named \<^verbatim>\<open>.gitignore\<close> among the entries of a
  directory that are no directories. \<open>found_scopes\<close> lists, in the order of the walk,
  the relative paths of the directories the walk reaches that hold such a file, with
  its lines; \<open>unreadable_gitignore\<close> says that one of these files cannot be read.
  \<open>scope_prefix\<close> is the prefix string the registry gets for a relative path.
\<close>

definition gitignore_file :: "(string \<times> node) list \<Rightarrow> node option" where
  "gitignore_file es = map_of (filter (\<lambda>(e, n). \<not> isdir n) es) ''.gitignore''"

definition scope_prefix :: "string list \<Rightarrow> string" where
  "scope_prefix rel = (if rel = [] then ''/'' else ''/'' @ sep_join rel)"

fun found_scopes :: "string list \<Rightarrow> node \<Rightarrow> (string list \<times> string list) list" where
  "found_scopes rel (File r ls) = []"
| "found_scopes rel (Dir l es) =
     (if \<not> l then []
      else (case gitignore_file es of
              None \<Rightarrow> []
            | Some f \<Rightarrow> (case read_lines f of Inl err \<Rightarrow> [] | Inr patterns \<Rightarrow> [(rel, patterns)]))
           @ concat (map (\<lambda>(e, n). found_scopes (rel @ [e]) n)
                       (filter (\<lambda>(e, n). isdir n) es)))"

fun unreadable_gitignore :: "node \<Rightarrow> bool" where
  "unreadable_gitignore (File r ls) = False"
| "unreadable_gitignore (Dir l es) =
     (l \<and> ((case gitignore_file es of
               None \<Rightarrow> False
             | Some f \<Rightarrow> (case read_lines f of Inl err \<Rightarrow> True | Inr patterns \<Rightarrow> False))
           \<or> (\<exists>(e, n) \<in> set es. isdir n \<and> unreadable_gitignore n)))"

lemma read_lines_error: "read_lines f = Inl err \<Longrightarrow> err = IoError"
  by (cases f) (auto split: if_splits)

lemma rel_str_dot:
  "list_all valid_name rel \<Longrightarrow> (rel_str rel = ''.'') = (rel = [])"
proof (cases rel)
  case Nil
  then show ?thesis by (simp add: rel_str_def)
next
  case (Cons x r)
  assume v: "list_all valid_name rel"
  show ?thesis
  proof (cases r)
    case Nil
    then show ?thesis using v Cons by (simp add: rel_str_def valid_name_def)
  next
    case (Cons y r')
    have mem: "CHR ''/'' \<in> set (sep_join (x # y # r'))" by simp
    have "sep_join (x # y # r') \<noteq> ''.''"
    proof
      assume eq: "sep_join (x # y # r') = ''.''"
      from mem have "CHR ''/'' \<in> set ''.''" unfolding eq .
      then show False by simp
    qed
    then show ?thesis using \<open>rel = x # r\<close> Cons by (simp add: rel_str_def)
  qed
qed

lemma collect_loop_append:
  "collect_loop cwd top_dir (xs @ ys) acc =
     (case collect_loop cwd top_dir xs acc of
        Inl e \<Rightarrow> Inl e
      | Inr acc' \<Rightarrow> collect_loop cwd top_dir ys acc')"
proof (induction xs arbitrary: acc)
  case Nil
  then show ?case by simp
next
  case (Cons x xs)
  obtain root dirs files where x: "x = (root, dirs, files)" by (cases x)
  show ?case
    by (simp add: x Cons Let_def split: option.splits sum.splits)
qed

definition collected :: "string list \<Rightarrow> node \<Rightarrow> (string \<times> string list) list" where
  "collected rel nd = map (\<lambda>(r, ps). (scope_prefix r, ps)) (found_scopes rel nd)"

lemma collect_step:
  assumes cwd: "startswith cwd ''/''" and top: "top_dir \<noteq> []" and rel: "list_all valid_name rel"
  shows "collect_loop cwd top_dir ((joins top_dir rel, dirs, filter (\<lambda>(e, n). \<not> isdir n) es) # rest) acc =
     (case gitignore_file es of
        None \<Rightarrow> collect_loop cwd top_dir rest acc
      | Some f \<Rightarrow> (case read_lines f of
            Inl err \<Rightarrow> Inl IoError
          | Inr patterns \<Rightarrow> collect_loop cwd top_dir rest (acc @ [(scope_prefix rel, patterns)])))"
proof -
  have rp: "os_path_relpath cwd (joins top_dir rel) top_dir = Inr (rel_str rel)"
    using relpath_joins [OF cwd top rel] by simp
  have fp: "(if rel_str rel = ''.'' then ''/'' else ''/'' @ rel_str rel) = scope_prefix rel"
    using rel_str_dot [OF rel] by (simp add: scope_prefix_def rel_str_def)
  show ?thesis
    using read_lines_error
    by (auto simp: gitignore_file_def rp Let_def fp [simplified] split: option.splits sum.splits)
qed

lemma collect_subdirs:
  assumes IH: "\<And>e n acc. (e, n) \<in> set xs \<Longrightarrow>
      collect_loop cwd top_dir (os_walk (os_path_join cur e) n) acc =
        (if unreadable_gitignore n then Inl IoError else Inr (acc @ collected (rel @ [e]) n))"
  shows "collect_loop cwd top_dir (concat (map (\<lambda>(e, n). os_walk (os_path_join cur e) n) xs)) acc =
     (if \<exists>(e, n) \<in> set xs. unreadable_gitignore n then Inl IoError
      else Inr (acc @ concat (map (\<lambda>(e, n). collected (rel @ [e]) n) xs)))"
  using IH
proof (induction xs arbitrary: acc)
  case Nil
  then show ?case by simp
next
  case (Cons x xs)
  obtain e n where x: "x = (e, n)" by (cases x)
  have here: "collect_loop cwd top_dir (os_walk (os_path_join cur e) n) acc =
        (if unreadable_gitignore n then Inl IoError else Inr (acc @ collected (rel @ [e]) n))"
    using Cons.prems [of e n acc] by (simp add: x)
  have rest: "collect_loop cwd top_dir
        (concat (map (\<lambda>(e, n). os_walk (os_path_join cur e) n) xs)) acc' =
     (if \<exists>(e, n) \<in> set xs. unreadable_gitignore n then Inl IoError
      else Inr (acc' @ concat (map (\<lambda>(e, n). collected (rel @ [e]) n) xs)))" for acc'
  proof (rule Cons.IH)
    fix e' n' acc''
    assume "(e', n') \<in> set xs"
    then show "collect_loop cwd top_dir (os_walk (os_path_join cur e') n') acc'' =
        (if unreadable_gitignore n' then Inl IoError
         else Inr (acc'' @ collected (rel @ [e']) n'))"
      using Cons.prems [of e' n' acc''] by simp
  qed
  show ?case
    by (simp add: x collect_loop_append here rest)
qed

lemma collected_Dir:
  "collected rel (Dir True es) =
     (case gitignore_file es of
        None \<Rightarrow> []
      | Some f \<Rightarrow> (case read_lines f of Inl err \<Rightarrow> [] | Inr patterns \<Rightarrow> [(scope_prefix rel, patterns)]))
     @ concat (map (\<lambda>(e, n). collected (rel @ [e]) n) (filter (\<lambda>(e, n). isdir n) es))"
  by (simp add: collected_def map_concat comp_def case_prod_unfold
        split: option.splits sum.splits)

lemma collect_char:
  assumes cwd: "startswith cwd ''/''" and top: "top_dir \<noteq> []"
  shows "wf_node nd \<Longrightarrow> list_all valid_name rel \<Longrightarrow>
     collect_loop cwd top_dir (os_walk (joins top_dir rel) nd) acc =
       (if unreadable_gitignore nd then Inl IoError else Inr (acc @ collected rel nd))"
proof (induction nd arbitrary: rel acc)
  case (File r ls)
  show ?case by (simp add: collected_def)
next
  case (Dir l es)
  let ?cur = "joins top_dir rel"
  have cur_ne: "?cur \<noteq> []" using joins_ne [OF top Dir.prems(2)] .
  show ?case
  proof (cases l)
    case False
    then show ?thesis by (simp add: collected_def)
  next
    case True
    let ?ds = "filter (\<lambda>(e, n). isdir n) es"
    have sub: "collect_loop cwd top_dir (os_walk (os_path_join ?cur e) n) acc' =
        (if unreadable_gitignore n then Inl IoError else Inr (acc' @ collected (rel @ [e]) n))"
      if "(e, n) \<in> set ?ds" for e n acc'
    proof -
      have en: "(e, n) \<in> set es" using that by simp
      have wn: "wf_node n" and ve: "valid_name e" using Dir.prems(1) en by auto
      have vr: "list_all valid_name (rel @ [e])" using Dir.prems(2) ve by simp
      have "n \<in> Basic_BNFs.snds (e, n)" by simp
      from Dir.IH [OF en this wn vr, of acc'] show ?thesis by (simp add: joins_snoc)
    qed
    have rest: "collect_loop cwd top_dir
          (concat (map (\<lambda>(e, n). os_walk (os_path_join ?cur e) n) ?ds)) acc' =
       (if \<exists>(e, n) \<in> set ?ds. unreadable_gitignore n then Inl IoError
        else Inr (acc' @ concat (map (\<lambda>(e, n). collected (rel @ [e]) n) ?ds)))" for acc'
      by (rule collect_subdirs) (rule sub)
    have ex: "(\<exists>(e, n) \<in> set ?ds. unreadable_gitignore n)
                = (\<exists>(e, n) \<in> set es. isdir n \<and> unreadable_gitignore n)"
      by auto
    have walk: "os_walk ?cur (Dir l es) =
        (?cur, ?ds, filter (\<lambda>(e, n). \<not> isdir n) es)
          # concat (map (\<lambda>(e, n). os_walk (os_path_join ?cur e) n) ?ds)"
      using True cur_ne by simp
    show ?thesis
      unfolding walk collect_step [OF cwd top Dir.prems(2)] rest ex
      using True
      by (simp add: collected_Dir split: option.splits sum.splits)
  qed
qed

lemma collect_gitignores_char:
  assumes "startswith cwd ''/''" "top_dir \<noteq> []" "wf_node fs"
  shows "collect_gitignores cwd top_dir fs =
       (if unreadable_gitignore fs then Inl IoError else Inr (collected [] fs))"
  using collect_char [OF assms(1,2,3), of "[]" "[]"]
  by (simp add: collect_gitignores_def joins_def)

lemma append_ignorers_char:
  "append_ignorers lib gs acc =
     (if \<exists>(p, ps) \<in> set gs. from_lines lib ps = None then Inl PatternError
      else Inr (acc @ map (\<lambda>(p, ps). (p, \<lparr>pathspec = the (from_lines lib ps)\<rparr>)) gs))"
proof (induction gs arbitrary: acc)
  case Nil
  then show ?case by simp
next
  case (Cons g gs)
  obtain p ps where g: "g = (p, ps)" by (cases g)
  show ?case
    by (cases "from_lines lib ps") (simp_all add: g Cons PathspecIgnorer_create_def)
qed

lemma create_iff:
  "PathspecIgnorer_create lib ps = Inr ig \<longleftrightarrow>
     (from_lines lib ps \<noteq> None \<and> ig = \<lparr>pathspec = the (from_lines lib ps)\<rparr>)"
  by (cases "from_lines lib ps") (auto simp: PathspecIgnorer_create_def)

lemma from_git_root_char:
  assumes "startswith cwd ''/''" "root_dir \<noteq> []" "wf_node fs"
  shows "GitIgnorer_from_git_root lib cwd fs root_dir xtra =
     (case from_lines lib (case xtra of None \<Rightarrow> [] | Some ps \<Rightarrow> ps) of
        None \<Rightarrow> Inl PatternError
      | Some sp \<Rightarrow>
          if unreadable_gitignore fs then Inl IoError
          else if \<exists>(p, ps) \<in> set (collected [] fs). from_lines lib ps = None
            then Inl PatternError
          else Inr \<lparr>ignorer_data = (''/'', \<lparr>pathspec = sp\<rparr>)
                 # map (\<lambda>(p, ps). (p, \<lparr>pathspec = the (from_lines lib ps)\<rparr>))
                     (collected [] fs)\<rparr>)"
  unfolding GitIgnorer_from_git_root_def collect_gitignores_char [OF assms]
    append_ignorers_char PathspecIgnorer_create_def
  by (simp split: option.splits)

lemma gitignore_file_Some:
  assumes "distinct (map fst es)"
  shows "gitignore_file es = Some f \<longleftrightarrow> (map_of es ''.gitignore'' = Some f \<and> \<not> isdir f)"
proof -
  let ?P = "\<lambda>(e, n). \<not> isdir n"
  have d: "distinct (map fst (filter ?P es))" using assms by (rule distinct_map_filter)
  have "gitignore_file es = Some f \<longleftrightarrow> (''.gitignore'', f) \<in> set (filter ?P es)"
    unfolding gitignore_file_def using map_of_eq_Some_iff [OF d] by blast
  also have "\<dots> \<longleftrightarrow> ((''.gitignore'', f) \<in> set es \<and> \<not> isdir f)" by simp
  also have "\<dots> \<longleftrightarrow> (map_of es ''.gitignore'' = Some f \<and> \<not> isdir f)"
    using map_of_eq_Some_iff [OF assms] by blast
  finally show ?thesis .
qed

lemma read_lines_Inr: "read_lines f = Inr ps \<longleftrightarrow> f = File True ps"
  by (cases f) auto

lemma found_scopes_Dir_mem:
  "(r, ps) \<in> set (found_scopes rel (Dir l es)) \<longleftrightarrow>
     l \<and> ((\<exists>f. gitignore_file es = Some f \<and> read_lines f = Inr ps \<and> r = rel)
          \<or> (\<exists>e n. (e, n) \<in> set es \<and> isdir n \<and> (r, ps) \<in> set (found_scopes (rel @ [e]) n)))"
proof (cases l)
  case False
  then show ?thesis by simp
next
  case True
  show ?thesis
  proof (cases "gitignore_file es")
    case None
    then show ?thesis using True by (simp add: Bex_def; blast)
  next
    case (Some f)
    show ?thesis
    proof (cases "read_lines f")
      case (Inl err)
      then show ?thesis using True Some by (simp add: Bex_def; blast)
    next
      case (Inr ps')
      then show ?thesis using True Some by (simp add: Bex_def; blast)
    qed
  qed
qed

lemma found_scopes_lookup:
  "wf_node nd \<Longrightarrow> (r, ps) \<in> set (found_scopes rel nd) \<Longrightarrow>
     \<exists>s es. r = rel @ s \<and> lookup nd s = Some (Dir True es)
        \<and> map_of es ''.gitignore'' = Some (File True ps)"
proof (induction nd arbitrary: rel)
  case (File r' ls)
  then show ?case by simp
next
  case (Dir l es)
  have dist: "distinct (map fst es)" using Dir.prems(1) by simp
  from Dir.prems(2) have l: "l" unfolding found_scopes_Dir_mem by blast
  from Dir.prems(2) consider
    (here) f where "gitignore_file es = Some f" "read_lines f = Inr ps" "r = rel"
  | (sub) e n where "(e, n) \<in> set es" "isdir n" "(r, ps) \<in> set (found_scopes (rel @ [e]) n)"
    unfolding found_scopes_Dir_mem by blast
  then show ?case
  proof cases
    case here
    have f: "f = File True ps" using here(2) by (simp only: read_lines_Inr)
    have nd: "\<not> isdir f" by (simp add: f)
    have "map_of es ''.gitignore'' = Some f"
      using gitignore_file_Some [OF dist, of f] here(1) by blast
    then have m: "map_of es ''.gitignore'' = Some (File True ps)" by (simp only: f)
    have lk: "lookup (Dir l es) [] = Some (Dir True es)" using l by simp
    have "r = rel @ []" using here(3) by simp
    with lk m show ?thesis by blast
  next
    case sub
    have wn: "wf_node n" using Dir.prems(1) sub(1) by auto
    have "n \<in> Basic_BNFs.snds (e, n)" by simp
    from Dir.IH [OF sub(1) this wn sub(3)]
    obtain s es' where s: "r = (rel @ [e]) @ s" "lookup n s = Some (Dir True es')"
      "map_of es' ''.gitignore'' = Some (File True ps)"
      by blast
    have me: "map_of es e = Some n" using map_of_eq_Some_iff [OF dist] sub(1) by blast
    have r: "r = rel @ (e # s)" using s(1) by simp
    have lk: "lookup (Dir l es) (e # s) = Some (Dir True es')" using me s(2) by simp
    from r lk s(3) show ?thesis by blast
  qed
qed

lemma collected_root_gitignore:
  assumes "distinct (map fst es)" "map_of es ''.gitignore'' = Some (File True ps)"
  shows "\<exists>more. collected [] (Dir True es) = (''/'', ps) # more"
proof -
  have "gitignore_file es = Some (File True ps)"
    using gitignore_file_Some [OF assms(1), of "File True ps"] assms(2) by simp
  then show ?thesis
    by (simp add: collected_Dir scope_prefix_def)
qed

lemma create_config:
  "FileSelector_create lib cwd fs cm pathspecs = Inr selector \<Longrightarrow> config_manager selector = cm"
  by (auto simp: FileSelector_create_def Let_def split: sum.splits)

text \<open>
  \<open>no_gitignore\<close> says that no directory of the tree holds a \<^verbatim>\<open>.gitignore\<close> file.
\<close>

fun no_gitignore :: "node \<Rightarrow> bool" where
  "no_gitignore (File r ls) = True"
| "no_gitignore (Dir l es) =
     (gitignore_file es = None \<and> (\<forall>(e, n) \<in> set es. no_gitignore n))"

lemma no_gitignore_found:
  "no_gitignore nd \<Longrightarrow> found_scopes rel nd = [] \<and> \<not> unreadable_gitignore nd"
proof (induction nd arbitrary: rel)
  case (File r ls)
  then show ?case by simp
next
  case (Dir l es)
  have g: "gitignore_file es = None" using Dir.prems by simp
  have sub: "found_scopes (rel @ [e]) n = [] \<and> \<not> unreadable_gitignore n"
    if "(e, n) \<in> set es" for e n
  proof -
    have "no_gitignore n" using Dir.prems that by auto
    moreover have "n \<in> Basic_BNFs.snds (e, n)" by simp
    ultimately show ?thesis using Dir.IH [OF that] by blast
  qed
  have "concat (map (\<lambda>(e, n). found_scopes (rel @ [e]) n) (filter (\<lambda>(e, n). isdir n) es)) = []"
    using sub by auto
  moreover have "\<not> (\<exists>(e, n) \<in> set es. isdir n \<and> unreadable_gitignore n)"
    using sub by auto
  ultimately show ?case using g by simp
qed

lemma included_all:
  "(\<forall>q. \<not> reports_ignored lib ig q) \<Longrightarrow>
   included lib ig rel nd s \<longleftrightarrow> (s \<noteq> [] \<and> (\<exists>r ls. lookup nd s = Some (File r ls)))"
proof (induction lib ig rel nd s rule: included.induct)
  case (1 lib ig rel r ls s)
  then show ?case by (cases s) simp_all
next
  case (2 lib ig rel l es)
  then show ?case by simp
next
  case (3 lib ig rel l es e)
  show ?case
  proof (cases "map_of es e")
    case None
    then show ?thesis by simp
  next
    case (Some n)
    then show ?thesis using "3.prems" by (cases n) simp_all
  qed
next
  case (4 lib ig rel l es e e' s)
  show ?case
  proof (cases "map_of es e")
    case None
    then show ?thesis by simp
  next
    case (Some n)
    show ?thesis
    proof (cases n)
      case (File r ls)
      then show ?thesis using Some by simp
    next
      case (Dir l' es')
      then show ?thesis using Some "4.IH" [OF Some "4.prems"] "4.prems" by simp
    qed
  qed
qed

lemma count_list_distinct:
  "distinct xs \<Longrightarrow> count_list xs x = (if x \<in> set xs then 1 else 0)"
  by (induction xs) auto

lemma joins_kept_distinct:
  assumes "root \<noteq> []" "wf_node nd"
  shows "distinct (map (joins root) (kept lib ig [] nd))"
proof -
  have "inj_on (joins root) (set (kept lib ig [] nd))"
  proof (rule inj_onI)
    fix a b
    assume a: "a \<in> set (kept lib ig [] nd)" and b: "b \<in> set (kept lib ig [] nd)"
      and eq: "joins root a = joins root b"
    have "list_all valid_name a" using kept_valid [OF assms(2) _ a] by simp
    moreover have "list_all valid_name b" using kept_valid [OF assms(2) _ b] by simp
    ultimately show "a = b" using joins_inj [OF assms(1) _ _ eq] by blast
  qed
  then show ?thesis using kept_distinct [OF assms(2)] by (simp add: distinct_map)
qed

lemma empty_registry_ignores_nothing:
  assumes "\<forall>q. \<not> match_file lib sp q"
  shows "\<not> reports_ignored lib \<lparr>ignorer_data = [(''/'', \<lparr>pathspec = sp\<rparr>)]\<rparr> q"
  using assms
  by (simp add: reports_ignored_def GitIgnorer_ignore_def PathspecIgnorer_ignore_def
        split: bool.splits)

lemma sep_join_snoc: "rel \<noteq> [] \<Longrightarrow> sep_join (rel @ [e]) = sep_join rel @ ''/'' @ e"
  by (induction rel rule: sep_join.induct) simp_all

lemma sep_join_last:
  "rel \<noteq> [] \<Longrightarrow> list_all valid_name rel
     \<Longrightarrow> sep_join rel \<noteq> [] \<and> last (sep_join rel) \<noteq> CHR ''/''"
proof (induction rel rule: sep_join.induct)
  case 1
  then show ?case by simp
next
  case (2 x)
  then have x: "x \<noteq> []" "CHR ''/'' \<notin> set x" by (simp_all add: valid_name_def)
  have "last x \<in> set x" using x(1) by (rule last_in_set)
  then have "last x \<noteq> CHR ''/''" using x(2) by metis
  then show ?case using x(1) by simp
next
  case (3 x y r)
  then show ?case by simp
qed

lemma query_path_forms:
  assumes "list_all valid_name rel" "valid_name e"
  shows "query_path rel e d =
     (if rel = [] then ''/./'' @ e else ''/'' @ sep_join (rel @ [e]))
     @ (if d then ''/'' else [])"
proof (cases "rel = []")
  case True
  then show ?thesis using assms(2) by (simp add: query_path_def rel_str_def join_valid)
next
  case False
  then show ?thesis
    using assms(2) sep_join_last [OF False assms(1)]
    by (simp add: query_path_def rel_str_def join_valid sep_join_snoc)
qed

section \<open>A stand-in for the pattern library\<close>

text \<open>
  For concrete runs the library parameter has to be some matcher. In \<open>exact_lib\<close> a
  compiled specification is the list of the query paths it matches, and every list of
  lines compiles.
\<close>

definition exact_lib :: "string list GitIgnoreSpec" where
  "exact_lib = \<lparr>from_lines = Some, match_file = (\<lambda>ps path. path \<in> set ps)\<rparr>"

text \<open>
  A small project for concrete runs: the root \<^verbatim>\<open>/p\<close> holds a file, a directory
  \<^verbatim>\<open>build\<close> and a directory \<^verbatim>\<open>src\<close>; the registry has the root scope only, which
  matches the query of the directory \<^verbatim>\<open>build\<close>.
\<close>

definition ex_cm :: ConfigManager where
  "ex_cm = \<lparr>project_root_path = ''/p'', project_root = ''/p'', project_gitignores = []\<rparr>"

definition ex_build :: node where
  "ex_build = Dir True [(''keep.txt'', File True [])]"

definition ex_entries :: "(string \<times> node) list" where
  "ex_entries =
     [(''a.txt'', File True []),
      (''build'', ex_build),
      (''src'', Dir True [(''main.py'', File True [])])]"

definition ex_tree :: node where
  "ex_tree = Dir True ex_entries"

definition ex_selector :: "string list FileSelector" where
  "ex_selector = \<lparr>config_manager = ex_cm,
     ignorer = \<lparr>ignorer_data = [(''/'', \<lparr>pathspec = [''/./build/'']\<rparr>)]\<rparr>\<rparr>"

text \<open>
  A second project: the root holds a \<^verbatim>\<open>.gitignore\<close> file, a directory \<^verbatim>\<open>sub\<close> with a
  \<^verbatim>\<open>.gitignore\<close> file of its own, and a sibling directory \<^verbatim>\<open>subdir\<close>.
\<close>

definition ex_scoped_tree :: node where
  "ex_scoped_tree = Dir True
     [(''.gitignore'', File True [''/./build/'']),
      (''sub'', Dir True [(''.gitignore'', File True [''/subdir/file'']), (''x'', File True [])]),
      (''subdir'', Dir True [(''file'', File True [])])]"

text \<open>
  A third project: the directory \<^verbatim>\<open>secret\<close> cannot be listed, and the configured root
  patterns match its query.
\<close>

definition ex_secret_tree :: node where
  "ex_secret_tree = Dir True [(''a.txt'', File True []), (''secret'', Dir False [])]"

definition ex_secret_cm :: ConfigManager where
  "ex_secret_cm = \<lparr>project_root_path = ''/p'', project_root = ''/p'',
     project_gitignores = [''/./secret/'']\<rparr>"

section \<open>Claims about the registry query\<close>

lemma ignore_loop_append_True:
  "ignore_loop lib scopes path = Inr True \<Longrightarrow> path \<noteq> ''/'' \<Longrightarrow> path \<noteq> []
     \<Longrightarrow> ignore_loop lib (before @ scopes @ after) path = Inr True"
  by (simp add: ignore_loop_eq) blast

lemma ignore_loop_single:
  "startswith path prefix \<Longrightarrow> path \<noteq> ''/'' \<Longrightarrow> path \<noteq> []
     \<Longrightarrow> ignore_loop lib [(prefix, ig)] path = PathspecIgnorer_ignore lib ig path"
  by (auto simp: PathspecIgnorer_ignore_def split: bool.splits)

lemma ignore_loop_agree:
  "map fst d = map fst d'
     \<Longrightarrow> map (\<lambda>(p, ig). match_file lib (pathspec ig) path) d
          = map (\<lambda>(p, ig). match_file lib' (pathspec ig) path) d'
     \<Longrightarrow> ignore_loop lib d path = ignore_loop lib' d' path"
proof (induction d arbitrary: d')
  case Nil
  then show ?case by simp
next
  case (Cons a d)
  then obtain a' r' where d': "d' = a' # r'" by (cases d') auto
  obtain p ig where a: "a = (p, ig)" by (cases a)
  obtain p' ig' where a': "a' = (p', ig')" by (cases a')
  from Cons.prems have eq: "p = p'"
    "match_file lib (pathspec ig) path = match_file lib' (pathspec ig') path"
    and rest: "map fst d = map fst r'"
      "map (\<lambda>(p, ig). match_file lib (pathspec ig) path) d
        = map (\<lambda>(p, ig). match_file lib' (pathspec ig) path) r'"
    by (simp_all add: d' a a')
  from Cons.IH [OF rest] eq show ?case
    by (auto simp: d' a a' PathspecIgnorer_ignore_def split: bool.splits)
qed

text \<open>
  C1. For a query path other than \<^verbatim>\<open>"/"\<close> and \<^verbatim>\<open>""\<close>, the registry answers true exactly
  when some scope entry whose prefix the path starts with has a matcher that reports a
  match on the path: a disjunction over the applicable scopes. Hence a match in one
  scope stays a match whatever other scopes, with whatever negation patterns, stand
  before or after it in the registry.
\<close>

theorem C1_ignore_is_disjunction_over_applicable_scopes:
  assumes "path \<noteq> ''/''" and "path \<noteq> []"
  shows "GitIgnorer_ignore lib self path =
           Inr (\<exists>(prefix, ig) \<in> set (ignorer_data self).
                  startswith path prefix \<and> PathspecIgnorer_ignore lib ig path = Inr True)
         \<and> (GitIgnorer_ignore lib self path = Inr True \<longrightarrow>
              GitIgnorer_ignore lib
                \<lparr>ignorer_data = before @ ignorer_data self @ after\<rparr> path = Inr True)"
  using assms ignore_loop_append_True [of lib "ignorer_data self" path before after]
  by (simp add: GitIgnorer_ignore_def ignore_loop_eq PathspecIgnorer_ignore_def)

theorem C1_ignore_is_disjunction_witness:
  "''/logs/keep.log'' \<noteq> ''/'' \<and> ''/logs/keep.log'' \<noteq> []
   \<and> GitIgnorer_ignore exact_lib
        \<lparr>ignorer_data = [(''/'', \<lparr>pathspec = [''/logs/keep.log'']\<rparr>)]\<rparr> ''/logs/keep.log''
       = Inr True
   \<and> GitIgnorer_ignore exact_lib
        \<lparr>ignorer_data = [(''/'', \<lparr>pathspec = [''/logs/keep.log'']\<rparr>),
                         (''/logs'', \<lparr>pathspec = []\<rparr>)]\<rparr> ''/logs/keep.log''
       = Inr True"
  using C1_ignore_is_disjunction_over_applicable_scopes
          [of "''/logs/keep.log''" exact_lib
              "\<lparr>ignorer_data = [(''/'', \<lparr>pathspec = [''/logs/keep.log'']\<rparr>)]\<rparr>"
              "[]" "[(''/logs'', \<lparr>pathspec = []\<rparr>)]"]
  by (simp add: exact_lib_def PathspecIgnorer_ignore_def)

text \<open>
  C7. The root path \<^verbatim>\<open>"/"\<close> and the empty string fail the assertion of the pattern
  matcher and that of the registry, whatever the pattern set and the registry are.
\<close>

theorem C7_root_path_fails_assertion:
  "PathspecIgnorer_ignore lib ig ''/'' = Inl AssertionError
   \<and> PathspecIgnorer_ignore lib ig [] = Inl AssertionError
   \<and> GitIgnorer_ignore lib self ''/'' = Inl AssertionError
   \<and> GitIgnorer_ignore lib self [] = Inl AssertionError"
  by (simp add: PathspecIgnorer_ignore_def GitIgnorer_ignore_def)

text \<open>
  C6, as the claim states it, fails: the scope at \<^verbatim>\<open>/sub\<close> whose matcher matches
  \<^verbatim>\<open>/foo.py\<close> and nothing else does not report the query \<^verbatim>\<open>/sub/foo.py\<close> ignored, so
  the matcher was not handed \<^verbatim>\<open>/foo.py\<close>.
\<close>

theorem C6_prefix_not_stripped_counterexample:
  "PathspecIgnorer_ignore exact_lib \<lparr>pathspec = [''/foo.py'']\<rparr> ''/foo.py'' = Inr True
   \<and> startswith ''/sub/foo.py'' ''/sub''
   \<and> GitIgnorer_ignore exact_lib
        \<lparr>ignorer_data = [(''/sub'', \<lparr>pathspec = [''/foo.py'']\<rparr>)]\<rparr> ''/sub/foo.py''
       = Inr False"
  by (simp add: exact_lib_def PathspecIgnorer_ignore_def GitIgnorer_ignore_def)

text \<open>
  C6, amended. The path handed to the matcher of an applicable scope is the query path
  itself, prefix included: a registry of one applicable scope answers what that matcher
  answers on the unchanged query path, and the answer of any registry depends on its
  matchers only through their verdicts on the unchanged query path.
\<close>

theorem C6_matcher_receives_query_path_unchanged:
  "(startswith path prefix \<longrightarrow>
      GitIgnorer_ignore lib \<lparr>ignorer_data = [(prefix, ig)]\<rparr> path
        = PathspecIgnorer_ignore lib ig path)
   \<and> (map fst d = map fst d'
        \<and> map (\<lambda>(p, ig). match_file lib (pathspec ig) path) d
            = map (\<lambda>(p, ig). match_file lib' (pathspec ig) path) d'
      \<longrightarrow> GitIgnorer_ignore lib \<lparr>ignorer_data = d\<rparr> path
            = GitIgnorer_ignore lib' \<lparr>ignorer_data = d'\<rparr> path)"
proof (intro conjI impI)
  assume "startswith path prefix"
  then show "GitIgnorer_ignore lib \<lparr>ignorer_data = [(prefix, ig)]\<rparr> path
               = PathspecIgnorer_ignore lib ig path"
    using ignore_loop_single [of path prefix lib ig]
    by (auto simp: GitIgnorer_ignore_def PathspecIgnorer_ignore_def)
next
  assume "map fst d = map fst d'
           \<and> map (\<lambda>(p, ig). match_file lib (pathspec ig) path) d
               = map (\<lambda>(p, ig). match_file lib' (pathspec ig) path) d'"
  then show "GitIgnorer_ignore lib \<lparr>ignorer_data = d\<rparr> path
               = GitIgnorer_ignore lib' \<lparr>ignorer_data = d'\<rparr> path"
    using ignore_loop_agree [of d d' lib path lib']
    by (simp add: GitIgnorer_ignore_def)
qed

theorem C6_matcher_receives_query_path_witness:
  "startswith ''/sub/foo.py'' ''/sub''
   \<and> GitIgnorer_ignore exact_lib
        \<lparr>ignorer_data = [(''/sub'', \<lparr>pathspec = [''/sub/foo.py'']\<rparr>)]\<rparr> ''/sub/foo.py''
       = Inr True
   \<and> GitIgnorer_ignore exact_lib
        \<lparr>ignorer_data = [(''/sub'', \<lparr>pathspec = [''/sub/foo.py'', ''/x'']\<rparr>)]\<rparr> ''/sub/foo.py''
       = Inr True"
  using C6_matcher_receives_query_path_unchanged
          [of "''/sub/foo.py''" "''/sub''" exact_lib "\<lparr>pathspec = [''/sub/foo.py'']\<rparr>"
              "[(''/sub'', \<lparr>pathspec = [''/sub/foo.py'']\<rparr>)]"
              "[(''/sub'', \<lparr>pathspec = [''/sub/foo.py'', ''/x'']\<rparr>)]" exact_lib]
  by (simp add: exact_lib_def PathspecIgnorer_ignore_def GitIgnorer_ignore_def)

section \<open>Claims about the traversal\<close>

text \<open>
  C2. For a directory of the project tree, given by its relative path \<open>rel\<close>, the
  traversal returns when every directory below can be listed, and what it returns is
  the joined paths of the entries that are no directories and are not reported ignored,
  in listing order, followed by the results of the traversals of the sub-directories
  that are not reported ignored, in listing order. Every path returned leads to a file
  of the tree, no path of a directory of the tree is returned, and the paths are
  absolute when the directory was given by an absolute path.
\<close>

theorem C2_traverse_files_then_subdirectories:
  assumes env: "root_ok cwd (config_manager self)"
    and wf: "wf_node (Dir l es)" and rel: "list_all valid_name rel"
    and cur: "current_dir = joins (project_root_path (config_manager self)) rel"
  shows "(all_listable (Dir l es) \<longrightarrow>
            (\<exists>result. traverse lib cwd self current_dir (Dir l es) = Inr result))
     \<and> (\<forall>result. traverse lib cwd self current_dir (Dir l es) = Inr result \<longrightarrow>
          (\<exists>subs.
             map (\<lambda>(e, n). traverse lib cwd self (os_path_join current_dir e) n)
               (filter (\<lambda>(e, n). isdir n
                   \<and> \<not> reports_ignored lib (ignorer self) (query_path rel e True)) es)
               = map Inr subs
             \<and> result =
                 map (\<lambda>(e, n). os_path_join current_dir e)
                   (filter (\<lambda>(e, n). \<not> isdir n
                       \<and> \<not> reports_ignored lib (ignorer self) (query_path rel e False)) es)
                 @ concat subs)
          \<and> (\<forall>p \<in> set result. \<exists>s r ls.
                p = joins current_dir s \<and> lookup (Dir l es) s = Some (File r ls))
          \<and> (\<forall>s l' es'. lookup (Dir l es) s = Some (Dir l' es')
                \<longrightarrow> joins current_dir s \<notin> set result)
          \<and> (startswith current_dir ''/'' \<longrightarrow> (\<forall>p \<in> set result. startswith p ''/'')))"
proof (intro conjI impI allI)
  let ?root = "project_root_path (config_manager self)"
  let ?ig = "ignorer self"
  have root: "?root \<noteq> []" using env by (simp add: root_ok_def)
  have tv: "traverse lib cwd self current_dir (Dir l es) =
       (if blocked lib ?ig rel (Dir l es) then Inl IoError
        else Inr (map (joins ?root) (kept lib ?ig rel (Dir l es))))"
    unfolding cur by (rule traverse_root_ok [OF env wf rel])
  {
    assume "all_listable (Dir l es)"
    then have "\<not> blocked lib ?ig rel (Dir l es)"
      using blocked_all_listable [of "Dir l es" lib ?ig rel] by simp
    then show "\<exists>result. traverse lib cwd self current_dir (Dir l es) = Inr result"
      using tv by simp
  }
  fix result
  assume res: "traverse lib cwd self current_dir (Dir l es) = Inr result"
  then have nb: "\<not> blocked lib ?ig rel (Dir l es)"
    and result: "result = map (joins ?root) (kept lib ?ig rel (Dir l es))"
    using tv by (simp_all split: if_splits)
  let ?D = "\<lambda>(e, n). isdir n \<and> \<not> reports_ignored lib ?ig (query_path rel e True)"
  let ?subs = "map (\<lambda>(e, n). map (joins ?root) (kept lib ?ig (rel @ [e]) n)) (filter ?D es)"
  have each: "traverse lib cwd self (os_path_join current_dir e) n
                = Inr (map (joins ?root) (kept lib ?ig (rel @ [e]) n))"
    if "(e, n) \<in> set (filter ?D es)" for e n
  proof -
    have en: "(e, n) \<in> set es" and d: "?D (e, n)" using that by simp_all
    have wn: "wf_node n" and ve: "valid_name e" using wf en by auto
    have "\<not> blocked lib ?ig (rel @ [e]) n" using nb en d by auto
    moreover have "list_all valid_name (rel @ [e])" using rel ve by simp
    ultimately show ?thesis
      using traverse_root_ok [OF env wn, of "rel @ [e]" lib]
      by (simp add: cur joins_snoc)
  qed
  have "map (\<lambda>(e, n). traverse lib cwd self (os_path_join current_dir e) n) (filter ?D es)
          = map Inr ?subs"
    using each by (simp add: case_prod_unfold)
  moreover have "result =
                 map (\<lambda>(e, n). os_path_join current_dir e)
                   (filter (\<lambda>(e, n). \<not> isdir n
                       \<and> \<not> reports_ignored lib ?ig (query_path rel e False)) es)
                 @ concat ?subs"
    unfolding result cur by (rule kept_Dir_joins)
  ultimately show "\<exists>subs.
             map (\<lambda>(e, n). traverse lib cwd self (os_path_join current_dir e) n)
               (filter ?D es) = map Inr subs
             \<and> result =
                 map (\<lambda>(e, n). os_path_join current_dir e)
                   (filter (\<lambda>(e, n). \<not> isdir n
                       \<and> \<not> reports_ignored lib ?ig (query_path rel e False)) es)
                 @ concat subs"
    by blast
  have shape: "\<exists>s. q = rel @ s \<and> included lib ?ig rel (Dir l es) s"
    if "q \<in> set (kept lib ?ig rel (Dir l es))" for q
    using that unfolding kept_set [OF wf] by blast
  show "\<forall>p \<in> set result. \<exists>s r ls.
          p = joins current_dir s \<and> lookup (Dir l es) s = Some (File r ls)"
  proof
    fix p assume "p \<in> set result"
    then obtain q where q: "q \<in> set (kept lib ?ig rel (Dir l es))" "p = joins ?root q"
      unfolding result by auto
    from shape [OF q(1)] obtain s where s: "q = rel @ s" "included lib ?ig rel (Dir l es) s"
      by blast
    from included_is_file [OF s(2)] obtain r ls where "lookup (Dir l es) s = Some (File r ls)"
      by blast
    moreover have "p = joins current_dir s" by (simp add: q(2) s(1) cur joins_append)
    ultimately show "\<exists>s r ls. p = joins current_dir s \<and> lookup (Dir l es) s = Some (File r ls)"
      by blast
  qed
  {
    fix s l' es'
    assume lk: "lookup (Dir l es) s = Some (Dir l' es')"
    show "joins current_dir s \<notin> set result"
    proof
      assume "joins current_dir s \<in> set result"
      then obtain q where q: "q \<in> set (kept lib ?ig rel (Dir l es))"
        "joins current_dir s = joins ?root q"
        unfolding result by auto
      have vq: "list_all valid_name q" using kept_valid [OF wf rel q(1)] .
      have vs: "list_all valid_name (rel @ s)" using lookup_valid [OF wf lk] rel by simp
      have "joins ?root (rel @ s) = joins ?root q" using q(2) by (simp add: cur joins_append)
      from joins_inj [OF root vs vq this] have "q = rel @ s" by simp
      with shape [OF q(1)] have "included lib ?ig rel (Dir l es) s" by simp
      from included_is_file [OF this] lk show False by simp
    qed
  }
  {
    assume a: "startswith current_dir ''/''"
    show "\<forall>p \<in> set result. startswith p ''/''"
    proof
      fix p assume "p \<in> set result"
      then obtain q where q: "q \<in> set (kept lib ?ig rel (Dir l es))" "p = joins ?root q"
        unfolding result by auto
      from shape [OF q(1)] obtain s where s: "q = rel @ s" "included lib ?ig rel (Dir l es) s"
        by blast
      have "list_all valid_name s" using included_valid [OF wf s(2)] .
      from joins_abs [OF a this] show "startswith p ''/''"
        by (simp add: q(2) s(1) cur joins_append)
    qed
  }
qed

theorem C2_traverse_files_then_subdirectories_witness:
  "root_ok ''/home'' (config_manager ex_selector)
   \<and> wf_node ex_tree \<and> list_all valid_name []
   \<and> ''/p'' = joins (project_root_path (config_manager ex_selector)) []
   \<and> all_listable ex_tree
   \<and> traverse exact_lib ''/home'' ex_selector ''/p'' ex_tree
        = Inr [''/p/a.txt'', ''/p/src/main.py'']
   \<and> (\<exists>s r ls. ''/p/src/main.py'' = joins ''/p'' s \<and> lookup ex_tree s = Some (File r ls))"
proof -
  have h1: "root_ok ''/home'' (config_manager ex_selector)"
    by code_simp
  have h2: "wf_node (Dir True ex_entries)"
    by code_simp
  have h3: "list_all valid_name []" by simp
  have h4: "''/p'' = joins (project_root_path (config_manager ex_selector)) []"
    by code_simp
  have h5: "all_listable ex_tree" by code_simp
  have h6: "traverse exact_lib ''/home'' ex_selector ''/p'' ex_tree
        = Inr [''/p/a.txt'', ''/p/src/main.py'']"
    by code_simp
  from C2_traverse_files_then_subdirectories [OF h1 h2 h3 h4, of exact_lib] h6
  have "\<forall>p \<in> set [''/p/a.txt'', ''/p/src/main.py'']. \<exists>s r ls.
          p = joins ''/p'' s \<and> lookup ex_tree s = Some (File r ls)"
    unfolding ex_tree_def by blast
  then have "\<exists>s r ls. ''/p/src/main.py'' = joins ''/p'' s \<and> lookup ex_tree s = Some (File r ls)"
    by simp
  with h1 h2 h3 h4 h5 h6 show ?thesis unfolding ex_tree_def by blast
qed

text \<open>
  C3. Let \<open>d\<close> be a directory of the tree, the entry \<open>e\<close> of the directory at \<open>a\<close>,
  whose query the registry reports ignored. The traversal of its parent does not
  depend on \<open>d\<close>: any directory in its place, one that cannot be listed included, gives
  the same outcome. And the result of the whole traversal holds neither the path of
  \<open>d\<close> nor the path of anything below \<open>d\<close>, whatever the registry answers for those.
\<close>

theorem C3_ignored_directory_is_pruned:
  assumes env: "root_ok cwd (config_manager self)" and wf: "wf_node fs"
    and parent: "lookup fs a = Some (Dir l es)"
    and child: "map_of es e = Some d" "isdir d"
    and ign: "reports_ignored lib (ignorer self) (query_path a e True)"
  shows "(\<forall>d' es1 es2. isdir d' \<and> es = es1 @ (e, d) # es2 \<longrightarrow>
            traverse lib cwd self (joins (project_root_path (config_manager self)) a)
              (Dir l (es1 @ (e, d') # es2))
            = traverse lib cwd self (joins (project_root_path (config_manager self)) a)
                (Dir l es))
     \<and> (\<forall>result s. get_all lib cwd fs self = Inr result \<and> lookup d s \<noteq> None \<longrightarrow>
            joins (project_root_path (config_manager self)) (a @ e # s) \<notin> set result)"
proof (intro conjI allI impI)
  let ?root = "project_root_path (config_manager self)"
  let ?ig = "ignorer self"
  have root: "?root \<noteq> []" and cwd: "startswith cwd ''/''"
    and same: "os_path_abspath cwd (project_root (config_manager self)) = os_path_abspath cwd ?root"
    using env by (simp_all add: root_ok_def)
  have va: "list_all valid_name a" using lookup_valid [OF wf parent] by simp
  {
    fix d' es1 es2
    assume h: "isdir d' \<and> es = es1 @ (e, d) # es2"
    let ?cur = "joins ?root a"
    have rp: "os_path_relpath cwd ?cur (project_root (config_manager self)) = Inr (rel_str a)"
      using relpath_joins [OF cwd root va same] .
    have q: "GitIgnorer_ignore lib ?ig (''/'' @ os_path_join (rel_str a) e @ ''/'') = Inr True"
      using ign by (simp add: reports_ignored_def query_path_def)
    have sd: "select_dirs lib ?ig ?cur (rel_str a) (es1 @ (e, d') # es2)
                = select_dirs lib ?ig ?cur (rel_str a) es"
      using select_dirs_skip [OF child(2) _ q, of d' ?cur es1 es2] h by simp
    have sf: "select_files lib ?ig ?cur (rel_str a) (es1 @ (e, d') # es2)
                = select_files lib ?ig ?cur (rel_str a) es"
      using select_files_skip [OF child(2), of d' lib ?ig ?cur "rel_str a" es1 e es2] h by simp
    show "traverse lib cwd self ?cur (Dir l (es1 @ (e, d') # es2))
            = traverse lib cwd self ?cur (Dir l es)"
      by (simp add: traverse.simps [of lib cwd self ?cur "Dir l (es1 @ (e, d') # es2)"]
            traverse.simps [of lib cwd self ?cur "Dir l es"] rp sd sf
            cong: sum.case_cong)
  }
  fix result s
  assume h: "get_all lib cwd fs self = Inr result \<and> lookup d s \<noteq> None"
  have tv: "traverse lib cwd self (joins ?root []) fs =
       (if blocked lib ?ig [] fs then Inl IoError
        else Inr (map (joins ?root) (kept lib ?ig [] fs)))"
    by (rule traverse_root_ok [OF env wf]) simp
  have result: "result = map (joins ?root) (kept lib ?ig [] fs)"
    using h tv by (simp add: get_all_def joins_def split: if_splits)
  show "joins ?root (a @ e # s) \<notin> set result"
  proof
    assume "joins ?root (a @ e # s) \<in> set result"
    then obtain q where q: "q \<in> set (kept lib ?ig [] fs)" "joins ?root (a @ e # s) = joins ?root q"
      unfolding result by auto
    have lk: "lookup fs (a @ e # s) = lookup d s" using lookup_child [OF parent child(1)] .
    then obtain n where n: "lookup fs (a @ e # s) = Some n" using h by auto
    have vs: "list_all valid_name (a @ e # s)" using lookup_valid [OF wf n] by simp
    have vq: "list_all valid_name q" using kept_valid [OF wf _ q(1)] by simp
    from joins_inj [OF root vs vq q(2)] have qe: "q = a @ e # s" by simp
    have inc: "included lib ?ig [] fs (a @ e # s)"
      using q(1) unfolding kept_set [OF wf] qe by simp
    show False
    proof (cases s)
      case Nil
      from included_is_file [OF inc] obtain r ls where "lookup fs (a @ [e]) = Some (File r ls)"
        by (auto simp: Nil)
      moreover have "lookup fs (a @ [e]) = Some d"
        using lookup_child [OF parent child(1), of "[]"] by simp
      ultimately show False using child(2) by simp
    next
      case (Cons e' s')
      from included_through [of lib ?ig "[]" fs a e e' s'] inc
      obtain l2 es2 n2 where "lookup fs a = Some (Dir l2 es2)"
        "\<not> reports_ignored lib ?ig (query_path a e True)"
        by (auto simp: Cons)
      then show False using ign by simp
    qed
  qed
qed

theorem C3_ignored_directory_is_pruned_witness:
  "root_ok ''/home'' (config_manager ex_selector) \<and> wf_node ex_tree
   \<and> lookup ex_tree [] = Some (Dir True ex_entries)
   \<and> map_of ex_entries ''build'' = Some ex_build \<and> isdir ex_build
   \<and> reports_ignored exact_lib (ignorer ex_selector) (query_path [] ''build'' True)
   \<and> \<not> reports_ignored exact_lib (ignorer ex_selector) ''/build/keep.txt''
   \<and> get_all exact_lib ''/home'' ex_tree ex_selector = Inr [''/p/a.txt'', ''/p/src/main.py'']
   \<and> lookup ex_build [''keep.txt''] \<noteq> None
   \<and> joins (project_root_path (config_manager ex_selector)) ([] @ ''build'' # [''keep.txt''])
        \<notin> set [''/p/a.txt'', ''/p/src/main.py'']"
proof -
  have h1: "root_ok ''/home'' (config_manager ex_selector)" by code_simp
  have h2: "wf_node ex_tree" by code_simp
  have h3: "lookup ex_tree [] = Some (Dir True ex_entries)" by code_simp
  have h4: "map_of ex_entries ''build'' = Some ex_build" by code_simp
  have h5: "isdir ex_build" by code_simp
  have h6: "reports_ignored exact_lib (ignorer ex_selector) (query_path [] ''build'' True)"
    by code_simp
  have h7: "\<not> reports_ignored exact_lib (ignorer ex_selector) ''/build/keep.txt''"
    by code_simp
  have h8: "get_all exact_lib ''/home'' ex_tree ex_selector
              = Inr [''/p/a.txt'', ''/p/src/main.py'']"
    by code_simp
  have h9: "lookup ex_build [''keep.txt''] \<noteq> None" by code_simp
  from C3_ignored_directory_is_pruned [OF h1 h2 h3 h4 h5 h6] h8 h9
  have "joins (project_root_path (config_manager ex_selector)) ([] @ ''build'' # [''keep.txt''])
          \<notin> set [''/p/a.txt'', ''/p/src/main.py'']"
    by blast
  with h1 h2 h3 h4 h5 h6 h7 h8 h9 show ?thesis by blast
qed

section \<open>Claims about building the registry\<close>

text \<open>
  C4. The build succeeds when every pattern list compiles and no \<^verbatim>\<open>.gitignore\<close> file
  the pre-scan finds is unreadable. A registry it returns begins with the root entry at
  prefix \<^verbatim>\<open>/\<close>, made of the extra root patterns alone (the empty list when none are
  given). When the root directory holds a \<^verbatim>\<open>.gitignore\<close> file, the entry after it is
  a second, separate entry at prefix \<^verbatim>\<open>/\<close> made of that file's lines. Every entry
  after the first belongs to a listable directory of the tree that holds a readable
  \<^verbatim>\<open>.gitignore\<close> file: its prefix is the prefix string of that directory's relative
  path and its matcher is made of that file's lines.
\<close>

theorem C4_registry_shape:
  assumes cwd: "startswith cwd ''/''" and root: "root_dir \<noteq> []" and wf: "wf_node fs"
  shows "((\<forall>ps. from_lines lib ps \<noteq> None) \<and> \<not> unreadable_gitignore fs \<longrightarrow>
            (\<exists>reg. GitIgnorer_from_git_root lib cwd fs root_dir xtra = Inr reg))
     \<and> (\<forall>reg. GitIgnorer_from_git_root lib cwd fs root_dir xtra = Inr reg \<longrightarrow>
          (\<exists>root_ignorer rest.
             ignorer_data reg = (''/'', root_ignorer) # rest
             \<and> PathspecIgnorer_create lib (case xtra of None \<Rightarrow> [] | Some ps \<Rightarrow> ps)
                 = Inr root_ignorer
             \<and> (\<forall>es ps. fs = Dir True es \<and> map_of es ''.gitignore'' = Some (File True ps)
                  \<longrightarrow> (\<exists>ig rest'. rest = (''/'', ig) # rest'
                         \<and> PathspecIgnorer_create lib ps = Inr ig))
             \<and> (\<forall>(prefix, ig) \<in> set rest. \<exists>rel es ps.
                   lookup fs rel = Some (Dir True es)
                   \<and> map_of es ''.gitignore'' = Some (File True ps)
                   \<and> prefix = scope_prefix rel
                   \<and> PathspecIgnorer_create lib ps = Inr ig)))"
proof (intro conjI impI allI)
  note char = from_git_root_char [OF cwd root wf, of lib xtra]
  let ?x = "case xtra of None \<Rightarrow> [] | Some ps \<Rightarrow> ps"
  let ?F = "\<lambda>(p, ps). (p, \<lparr>pathspec = the (from_lines lib ps)\<rparr>)"
  {
    assume a: "(\<forall>ps. from_lines lib ps \<noteq> None) \<and> \<not> unreadable_gitignore fs"
    then obtain sp where "from_lines lib ?x = Some sp" by blast
    moreover have "\<not> (\<exists>(p, ps) \<in> set (collected [] fs). from_lines lib ps = None)"
      using a by blast
    moreover have "\<not> unreadable_gitignore fs" using a by blast
    ultimately show "\<exists>reg. GitIgnorer_from_git_root lib cwd fs root_dir xtra = Inr reg"
      unfolding char by simp
  }
  fix reg
  assume ok: "GitIgnorer_from_git_root lib cwd fs root_dir xtra = Inr reg"
  then obtain sp where sp: "from_lines lib ?x = Some sp"
    unfolding char by (cases "from_lines lib ?x") simp_all
  have nu: "\<not> unreadable_gitignore fs"
    and comp: "\<not> (\<exists>(p, ps) \<in> set (collected [] fs). from_lines lib ps = None)"
    and reg: "reg = \<lparr>ignorer_data = (''/'', \<lparr>pathspec = sp\<rparr>) # map ?F (collected [] fs)\<rparr>"
    using ok unfolding char sp by (simp_all split: if_splits)
  have compiles: "from_lines lib ps \<noteq> None" if "(p, ps) \<in> set (collected [] fs)" for p ps
    using comp that by blast
  have 1: "ignorer_data reg = (''/'', \<lparr>pathspec = sp\<rparr>) # map ?F (collected [] fs)"
    by (simp add: reg)
  have 2: "PathspecIgnorer_create lib ?x = Inr \<lparr>pathspec = sp\<rparr>"
    by (simp add: create_iff sp)
  have 3: "\<forall>es ps. fs = Dir True es \<and> map_of es ''.gitignore'' = Some (File True ps)
             \<longrightarrow> (\<exists>ig rest'. map ?F (collected [] fs) = (''/'', ig) # rest'
                    \<and> PathspecIgnorer_create lib ps = Inr ig)"
  proof (intro allI impI)
    fix es ps
    assume h: "fs = Dir True es \<and> map_of es ''.gitignore'' = Some (File True ps)"
    then have dist: "distinct (map fst es)" using wf by simp
    from collected_root_gitignore [OF dist] h obtain more
      where more: "collected [] fs = (''/'', ps) # more" by blast
    then have "from_lines lib ps \<noteq> None" using compiles [of "''/''" ps] by simp
    then have c: "PathspecIgnorer_create lib ps = Inr \<lparr>pathspec = the (from_lines lib ps)\<rparr>"
      by (simp add: create_iff)
    have m: "map ?F (collected [] fs)
        = (''/'', \<lparr>pathspec = the (from_lines lib ps)\<rparr>) # map ?F more"
      by (simp add: more)
    show "\<exists>ig rest'. map ?F (collected [] fs) = (''/'', ig) # rest'
                    \<and> PathspecIgnorer_create lib ps = Inr ig"
      by (intro exI conjI) (rule m, rule c)
  qed
  have 4: "\<forall>(prefix, ig) \<in> set (map ?F (collected [] fs)). \<exists>rel es ps.
             lookup fs rel = Some (Dir True es)
             \<and> map_of es ''.gitignore'' = Some (File True ps)
             \<and> prefix = scope_prefix rel
             \<and> PathspecIgnorer_create lib ps = Inr ig"
  proof (clarify)
    fix prefix ig
    assume "(prefix, ig) \<in> set (map ?F (collected [] fs))"
    then obtain ps where ps: "(prefix, ps) \<in> set (collected [] fs)"
      "ig = \<lparr>pathspec = the (from_lines lib ps)\<rparr>"
      by auto
    from ps(1) obtain r where r: "(r, ps) \<in> set (found_scopes [] fs)" "prefix = scope_prefix r"
      unfolding collected_def by auto
    from found_scopes_lookup [OF wf r(1)] obtain s es
      where s: "r = s" "lookup fs s = Some (Dir True es)"
        "map_of es ''.gitignore'' = Some (File True ps)"
      by auto
    have c: "PathspecIgnorer_create lib ps = Inr ig"
      using compiles [OF ps(1)] ps(2) by (simp add: create_iff)
    have p: "prefix = scope_prefix s" using r(2) s(1) by simp
    show "\<exists>rel es ps.
             lookup fs rel = Some (Dir True es)
             \<and> map_of es ''.gitignore'' = Some (File True ps)
             \<and> prefix = scope_prefix rel
             \<and> PathspecIgnorer_create lib ps = Inr ig"
      by (intro exI conjI) (rule s(2), rule s(3), rule p, rule c)
  qed
  show "\<exists>root_ignorer rest.
             ignorer_data reg = (''/'', root_ignorer) # rest
             \<and> PathspecIgnorer_create lib ?x = Inr root_ignorer
             \<and> (\<forall>es ps. fs = Dir True es \<and> map_of es ''.gitignore'' = Some (File True ps)
                  \<longrightarrow> (\<exists>ig rest'. rest = (''/'', ig) # rest'
                         \<and> PathspecIgnorer_create lib ps = Inr ig))
             \<and> (\<forall>(prefix, ig) \<in> set rest. \<exists>rel es ps.
                   lookup fs rel = Some (Dir True es)
                   \<and> map_of es ''.gitignore'' = Some (File True ps)
                   \<and> prefix = scope_prefix rel
                   \<and> PathspecIgnorer_create lib ps = Inr ig)"
    by (intro exI conjI) (rule 1, rule 2, rule 3, rule 4)
qed

theorem C4_registry_shape_witness:
  "startswith ''/home'' ''/'' \<and> ''/p'' \<noteq> [] \<and> wf_node ex_scoped_tree
   \<and> GitIgnorer_from_git_root exact_lib ''/home'' ex_scoped_tree ''/p'' (Some [''/x''])
       = Inr \<lparr>ignorer_data =
               [(''/'', \<lparr>pathspec = [''/x'']\<rparr>),
                (''/'', \<lparr>pathspec = [''/./build/'']\<rparr>),
                (''/sub'', \<lparr>pathspec = [''/subdir/file'']\<rparr>)]\<rparr>
   \<and> (\<exists>root_ignorer rest.
         ignorer_data \<lparr>ignorer_data =
               [(''/'', \<lparr>pathspec = [''/x'']\<rparr>),
                (''/'', \<lparr>pathspec = [''/./build/'']\<rparr>),
                (''/sub'', \<lparr>pathspec = [''/subdir/file'']\<rparr>)]\<rparr>
           = (''/'', root_ignorer) # rest
         \<and> PathspecIgnorer_create exact_lib [''/x''] = Inr root_ignorer)"
proof -
  have h1: "startswith ''/home'' ''/''" by simp
  have h2: "''/p'' \<noteq> []" by simp
  have h3: "wf_node ex_scoped_tree" by code_simp
  have h4: "GitIgnorer_from_git_root exact_lib ''/home'' ex_scoped_tree ''/p'' (Some [''/x''])
       = Inr \<lparr>ignorer_data =
               [(''/'', \<lparr>pathspec = [''/x'']\<rparr>),
                (''/'', \<lparr>pathspec = [''/./build/'']\<rparr>),
                (''/sub'', \<lparr>pathspec = [''/subdir/file'']\<rparr>)]\<rparr>"
    by code_simp
  from C4_registry_shape [OF h1 h2 h3, of exact_lib "Some [''/x'']",
         THEN conjunct2, THEN spec, THEN mp, OF h4]
  obtain root_ignorer rest where
    "ignorer_data \<lparr>ignorer_data =
               [(''/'', \<lparr>pathspec = [''/x'']\<rparr>),
                (''/'', \<lparr>pathspec = [''/./build/'']\<rparr>),
                (''/sub'', \<lparr>pathspec = [''/subdir/file'']\<rparr>)]\<rparr>
           = (''/'', root_ignorer) # rest"
    "PathspecIgnorer_create exact_lib (case Some [''/x''] of None \<Rightarrow> [] | Some ps \<Rightarrow> ps)
       = Inr root_ignorer"
    by (elim exE conjE)
  then have "\<exists>root_ignorer rest.
         ignorer_data \<lparr>ignorer_data =
               [(''/'', \<lparr>pathspec = [''/x'']\<rparr>),
                (''/'', \<lparr>pathspec = [''/./build/'']\<rparr>),
                (''/sub'', \<lparr>pathspec = [''/subdir/file'']\<rparr>)]\<rparr>
           = (''/'', root_ignorer) # rest
         \<and> PathspecIgnorer_create exact_lib [''/x''] = Inr root_ignorer"
    by (intro exI conjI) simp_all
  with h1 h2 h3 h4 show ?thesis by (intro conjI)
qed

section \<open>Claims about the whole run\<close>

text \<open>
  C9, as the claim states it, fails: the directory \<^verbatim>\<open>secret\<close> of the third project
  cannot be listed, yet the run raises nothing and reaches the persistence call. The
  pre-scan skips the directory without an error and the traversal, which finds its
  query ignored, never lists it.
\<close>

theorem C9_unlistable_ignored_directory_counterexample:
  "lookup ex_secret_tree [''secret''] = Some (Dir False [])
   \<and> os_listdir ''/p/secret'' (Dir False []) = Inl IoError
   \<and> main exact_lib ''/home'' ex_secret_tree ex_secret_cm = (Inr (), [[''/p/a.txt'']])"
  by code_simp

text \<open>
  C9, amended. A run that fails has made no persistence call, and a run that succeeds
  has made exactly one, with the full list the traversal returned. When a
  \<^verbatim>\<open>.gitignore\<close> file the pre-scan finds cannot be read and the configured root
  patterns compile, the build of the registry raises the I/O error and the run fails
  with it. When the traversal comes to a directory it cannot list (the root, or a
  directory that is not reported ignored below directories it lists), it raises the
  I/O error and the run fails with it. In every other case of a built registry the run
  succeeds. A directory that cannot be listed but is never reached by the traversal is
  no error: the pre-scan skips it silently.
\<close>

theorem C9_failures_precede_persistence:
  assumes env: "root_ok cwd cm" and wf: "wf_node fs"
  shows "(\<forall>err calls. main lib cwd fs cm = (Inl err, calls) \<longrightarrow> calls = [])
     \<and> (\<forall>calls. main lib cwd fs cm = (Inr (), calls) \<longrightarrow>
          (\<exists>selector all_files.
             FileSelector_create lib cwd fs cm None = Inr selector
             \<and> get_all lib cwd fs selector = Inr all_files \<and> calls = [all_files]))
     \<and> (unreadable_gitignore fs \<and> from_lines lib (project_gitignores cm) \<noteq> None \<longrightarrow>
          FileSelector_create lib cwd fs cm None = Inl IoError
          \<and> main lib cwd fs cm = (Inl IoError, []))
     \<and> (\<forall>selector. FileSelector_create lib cwd fs cm None = Inr selector
            \<and> blocked lib (ignorer selector) [] fs \<longrightarrow>
          get_all lib cwd fs selector = Inl IoError
          \<and> main lib cwd fs cm = (Inl IoError, []))
     \<and> (\<forall>selector. FileSelector_create lib cwd fs cm None = Inr selector
            \<and> \<not> blocked lib (ignorer selector) [] fs \<longrightarrow>
          (\<exists>all_files. get_all lib cwd fs selector = Inr all_files
             \<and> main lib cwd fs cm = (Inr (), [all_files])))"
proof (intro conjI allI impI)
  fix err calls
  assume "main lib cwd fs cm = (Inl err, calls)"
  then show "calls = []"
    by (auto simp: main_def update_selected_def split: sum.splits)
next
  fix calls
  assume "main lib cwd fs cm = (Inr (), calls)"
  then show "\<exists>selector all_files.
             FileSelector_create lib cwd fs cm None = Inr selector
             \<and> get_all lib cwd fs selector = Inr all_files \<and> calls = [all_files]"
    by (auto simp: main_def update_selected_def split: sum.splits)
next
  assume a: "unreadable_gitignore fs \<and> from_lines lib (project_gitignores cm) \<noteq> None"
  have cwd: "startswith cwd ''/''" and root: "project_root_path cm \<noteq> []"
    using env by (simp_all add: root_ok_def)
  from a obtain sp where sp: "from_lines lib (project_gitignores cm) = Some sp" by blast
  have "GitIgnorer_from_git_root lib cwd fs (project_root_path cm) (Some (project_gitignores cm))
          = Inl IoError"
    unfolding from_git_root_char [OF cwd root wf] using a sp by simp
  then show c: "FileSelector_create lib cwd fs cm None = Inl IoError"
    by (simp add: FileSelector_create_def)
  show "main lib cwd fs cm = (Inl IoError, [])"
    by (simp add: main_def c)
next
  fix selector
  assume a: "FileSelector_create lib cwd fs cm None = Inr selector
            \<and> blocked lib (ignorer selector) [] fs"
  then have cm: "config_manager selector = cm" using create_config by blast
  have "traverse lib cwd selector (joins (project_root_path (config_manager selector)) []) fs
          = Inl IoError"
    using traverse_root_ok [of cwd selector fs "[]" lib] env wf a by (simp add: cm)
  then show g: "get_all lib cwd fs selector = Inl IoError"
    by (simp add: get_all_def joins_def)
  show "main lib cwd fs cm = (Inl IoError, [])"
    using a g by (simp add: main_def update_selected_def)
next
  fix selector
  assume a: "FileSelector_create lib cwd fs cm None = Inr selector
            \<and> \<not> blocked lib (ignorer selector) [] fs"
  then have cm: "config_manager selector = cm" using create_config by blast
  have "traverse lib cwd selector (joins (project_root_path (config_manager selector)) []) fs
          = Inr (map (joins (project_root_path (config_manager selector)))
                   (kept lib (ignorer selector) [] fs))"
    using traverse_root_ok [of cwd selector fs "[]" lib] env wf a by (simp add: cm)
  then have g: "get_all lib cwd fs selector
                  = Inr (map (joins (project_root_path (config_manager selector)))
                           (kept lib (ignorer selector) [] fs))"
    by (simp add: get_all_def joins_def)
  moreover have "main lib cwd fs cm
      = (Inr (), [map (joins (project_root_path (config_manager selector)))
                    (kept lib (ignorer selector) [] fs)])"
    using a g by (simp add: main_def update_selected_def)
  ultimately show "\<exists>all_files. get_all lib cwd fs selector = Inr all_files
             \<and> main lib cwd fs cm = (Inr (), [all_files])"
    by blast
qed

theorem C9_failures_precede_persistence_witness:
  "root_ok ''/home'' ex_cm \<and> wf_node (Dir True [(''.gitignore'', File False [])])
   \<and> unreadable_gitignore (Dir True [(''.gitignore'', File False [])])
   \<and> from_lines exact_lib (project_gitignores ex_cm) \<noteq> None
   \<and> FileSelector_create exact_lib ''/home'' (Dir True [(''.gitignore'', File False [])]) ex_cm None
       = Inl IoError
   \<and> main exact_lib ''/home'' (Dir True [(''.gitignore'', File False [])]) ex_cm
       = (Inl IoError, [])"
proof -
  have h1: "root_ok ''/home'' ex_cm" by code_simp
  have h2: "wf_node (Dir True [(''.gitignore'', File False [])])" by code_simp
  have h3: "unreadable_gitignore (Dir True [(''.gitignore'', File False [])])" by code_simp
  have h4: "from_lines exact_lib (project_gitignores ex_cm) \<noteq> None" by code_simp
  from C9_failures_precede_persistence [OF h1 h2, of exact_lib] h3 h4
  have "FileSelector_create exact_lib ''/home'' (Dir True [(''.gitignore'', File False [])]) ex_cm None
       = Inl IoError
   \<and> main exact_lib ''/home'' (Dir True [(''.gitignore'', File False [])]) ex_cm
       = (Inl IoError, [])"
    by blast
  with h1 h2 h3 h4 show ?thesis by blast
qed

text \<open>
  C8, as the claim states it, fails: in the first project no scope reports the file
  \<^verbatim>\<open>build/keep.txt\<close> ignored, yet the result does not hold it, because the directory
  \<^verbatim>\<open>build\<close> above it is reported ignored and is pruned.
\<close>

theorem C8_file_below_ignored_directory_counterexample:
  "lookup ex_tree [''build'', ''keep.txt''] = Some (File True [])
   \<and> GitIgnorer_ignore exact_lib (ignorer ex_selector) ''/build/keep.txt'' = Inr False
   \<and> get_all exact_lib ''/home'' ex_tree ex_selector = Inr [''/p/a.txt'', ''/p/src/main.py'']
   \<and> count_list [''/p/a.txt'', ''/p/src/main.py''] ''/p/build/keep.txt'' = 0"
  by code_simp

text \<open>
  C8, amended. A traversal that returns gives a list without duplicates. Every file of
  the tree such that the registry reports neither the file nor a directory on the way
  from the root to it ignored is in the list exactly once, and the list holds nothing
  else. For a tree in which every directory can be listed and none holds a
  \<^verbatim>\<open>.gitignore\<close> file, with no configured root patterns and a library whose empty
  specification matches nothing, the selector is created, the traversal returns, and
  the list holds every file of the tree exactly once.
\<close>

theorem C8_included_files_exactly_once:
  assumes env: "root_ok cwd cm" and wf: "wf_node fs"
  shows "(\<forall>self result. config_manager self = cm \<and> get_all lib cwd fs self = Inr result \<longrightarrow>
            distinct result
            \<and> (\<forall>s. included lib (ignorer self) [] fs s \<longrightarrow>
                  count_list result (joins (project_root_path cm) s) = 1)
            \<and> (\<forall>p \<in> set result. \<exists>s. included lib (ignorer self) [] fs s
                  \<and> p = joins (project_root_path cm) s))
     \<and> (all_listable fs \<and> isdir fs \<and> no_gitignore fs \<and> project_gitignores cm = []
          \<and> from_lines lib [] = Some sp \<and> (\<forall>q. \<not> match_file lib sp q) \<longrightarrow>
          (\<exists>selector result.
             FileSelector_create lib cwd fs cm None = Inr selector
             \<and> get_all lib cwd fs selector = Inr result
             \<and> distinct result
             \<and> set result = {joins (project_root_path cm) s | s.
                               \<exists>r ls. lookup fs s = Some (File r ls)}))"
proof (intro conjI allI impI)
  have root: "project_root_path cm \<noteq> []" and cwd: "startswith cwd ''/''"
    using env by (simp_all add: root_ok_def)
  have tv: "get_all lib cwd fs self =
       (if blocked lib (ignorer self) [] fs then Inl IoError
        else Inr (map (joins (project_root_path cm)) (kept lib (ignorer self) [] fs)))"
    if "config_manager self = cm" for self :: "'a FileSelector"
    using traverse_root_ok [of cwd self fs "[]" lib] env wf that
    by (simp add: get_all_def joins_def)
  {
    fix self :: "'a FileSelector" and result
    assume a: "config_manager self = cm \<and> get_all lib cwd fs self = Inr result"
    then have result: "result = map (joins (project_root_path cm)) (kept lib (ignorer self) [] fs)"
      using tv [of self] by (simp split: if_splits)
    show d: "distinct result"
      unfolding result by (rule joins_kept_distinct [OF root wf])
    have ks: "set (kept lib (ignorer self) [] fs) = {s. included lib (ignorer self) [] fs s}"
      using kept_set [OF wf, of lib "ignorer self" "[]"] by simp
    show "count_list result (joins (project_root_path cm) s) = 1"
      if "included lib (ignorer self) [] fs s" for s
    proof -
      have "joins (project_root_path cm) s \<in> set result"
        unfolding result using ks that by simp
      then show ?thesis
        using count_list_distinct [OF d] by simp
    qed
    show "\<forall>p \<in> set result. \<exists>s. included lib (ignorer self) [] fs s
            \<and> p = joins (project_root_path cm) s"
      unfolding result using ks by auto
  }
  assume b: "all_listable fs \<and> isdir fs \<and> no_gitignore fs \<and> project_gitignores cm = []
          \<and> from_lines lib [] = Some sp \<and> (\<forall>q. \<not> match_file lib sp q)"
  let ?reg = "\<lparr>ignorer_data = [(''/'', \<lparr>pathspec = sp\<rparr>)]\<rparr>"
  let ?sel = "\<lparr>config_manager = cm, ignorer = ?reg\<rparr>"
  have none: "collected [] fs = []" "\<not> unreadable_gitignore fs"
    using no_gitignore_found [of fs "[]"] b by (simp_all add: collected_def)
  have "GitIgnorer_from_git_root lib cwd fs (project_root_path cm) (Some []) = Inr ?reg"
    unfolding from_git_root_char [OF cwd root wf] using b none by simp
  then have c: "FileSelector_create lib cwd fs cm None = Inr ?sel"
    using b by (simp add: FileSelector_create_def)
  have ni: "\<forall>q. \<not> reports_ignored lib ?reg q"
    using empty_registry_ignores_nothing [of lib sp] b by blast
  have nb: "\<not> blocked lib ?reg [] fs"
    using blocked_all_listable [of fs lib ?reg "[]"] b by blast
  have g: "get_all lib cwd fs ?sel = Inr (map (joins (project_root_path cm)) (kept lib ?reg [] fs))"
    using tv [of ?sel] nb by simp
  have d: "distinct (map (joins (project_root_path cm)) (kept lib ?reg [] fs))"
    by (rule joins_kept_distinct [OF root wf])
  have ks: "set (kept lib ?reg [] fs) = {s. \<exists>r ls. lookup fs s = Some (File r ls)}"
  proof -
    have "set (kept lib ?reg [] fs) = {s. included lib ?reg [] fs s}"
      using kept_set [OF wf, of lib ?reg "[]"] by simp
    also have "\<dots> = {s. s \<noteq> [] \<and> (\<exists>r ls. lookup fs s = Some (File r ls))}"
      using included_all [OF ni] by blast
    also have "\<dots> = {s. \<exists>r ls. lookup fs s = Some (File r ls)}"
      using b by (auto simp: isdir_iff)
    finally show ?thesis .
  qed
  have s: "set (map (joins (project_root_path cm)) (kept lib ?reg [] fs))
             = {joins (project_root_path cm) s | s. \<exists>r ls. lookup fs s = Some (File r ls)}"
    using ks by auto
  show "\<exists>selector result.
             FileSelector_create lib cwd fs cm None = Inr selector
             \<and> get_all lib cwd fs selector = Inr result
             \<and> distinct result
             \<and> set result = {joins (project_root_path cm) s | s.
                               \<exists>r ls. lookup fs s = Some (File r ls)}"
    by (intro exI conjI) (rule c, rule g, rule d, rule s)
qed

theorem C8_included_files_exactly_once_witness:
  "root_ok ''/home'' ex_cm \<and> wf_node ex_tree \<and> config_manager ex_selector = ex_cm
   \<and> get_all exact_lib ''/home'' ex_tree ex_selector = Inr [''/p/a.txt'', ''/p/src/main.py'']
   \<and> included exact_lib (ignorer ex_selector) [] ex_tree [''src'', ''main.py'']
   \<and> count_list [''/p/a.txt'', ''/p/src/main.py'']
        (joins (project_root_path ex_cm) [''src'', ''main.py'']) = 1"
proof -
  have h1: "root_ok ''/home'' ex_cm" by code_simp
  have h2: "wf_node ex_tree" by code_simp
  have h3: "config_manager ex_selector = ex_cm" by code_simp
  have h4: "get_all exact_lib ''/home'' ex_tree ex_selector
              = Inr [''/p/a.txt'', ''/p/src/main.py'']"
    by code_simp
  have h5: "included exact_lib (ignorer ex_selector) [] ex_tree [''src'', ''main.py'']"
    by code_simp
  from C8_included_files_exactly_once [OF h1 h2, of exact_lib] h3 h4 h5
  have "count_list [''/p/a.txt'', ''/p/src/main.py'']
        (joins (project_root_path ex_cm) [''src'', ''main.py'']) = 1"
    by blast
  with h1 h2 h3 h4 h5 show ?thesis by blast
qed

section \<open>Claims about the query paths\<close>

text \<open>
  C5. By \<open>query_path_forms\<close> the query path of an entry below the root is \<^verbatim>\<open>/\<close>
  followed by its path relative to the project root (and a trailing slash for a
  directory), as the claim says. For an entry of the project root itself the code
  does something else: \<^verbatim>\<open>os.path.relpath\<close> of the root is \<^verbatim>\<open>.\<close>, joining gives
  \<^verbatim>\<open>./a.txt\<close>, and the query path is \<^verbatim>\<open>/./a.txt\<close>, not \<^verbatim>\<open>/a.txt\<close>. In the first
  project a registry that reports \<^verbatim>\<open>/a.txt\<close> and \<^verbatim>\<open>/build/\<close> ignored therefore
  excludes nothing, while one that reports \<^verbatim>\<open>/src/main.py\<close> ignored excludes that
  file.
\<close>

theorem C5_root_entries_are_queried_with_dot:
  "os_path_relpath ''/home'' ''/p'' (project_root ex_cm) = Inr ''.''
   \<and> os_path_join ''.'' ''a.txt'' = ''./a.txt''
   \<and> query_path [] ''a.txt'' False = ''/./a.txt''
   \<and> query_path [] ''build'' True = ''/./build/''
   \<and> query_path [''src''] ''main.py'' False = ''/src/main.py''
   \<and> GitIgnorer_ignore exact_lib
        \<lparr>ignorer_data = [(''/'', \<lparr>pathspec = [''/a.txt'', ''/build/'']\<rparr>)]\<rparr> ''/a.txt'' = Inr True
   \<and> GitIgnorer_ignore exact_lib
        \<lparr>ignorer_data = [(''/'', \<lparr>pathspec = [''/a.txt'', ''/build/'']\<rparr>)]\<rparr> ''/build/'' = Inr True
   \<and> get_all exact_lib ''/home'' ex_tree
        \<lparr>config_manager = ex_cm,
         ignorer = \<lparr>ignorer_data = [(''/'', \<lparr>pathspec = [''/a.txt'', ''/build/'']\<rparr>)]\<rparr>\<rparr>
       = Inr [''/p/a.txt'', ''/p/build/keep.txt'', ''/p/src/main.py'']
   \<and> get_all exact_lib ''/home'' ex_tree
        \<lparr>config_manager = ex_cm,
         ignorer = \<lparr>ignorer_data = [(''/'', \<lparr>pathspec = [''/src/main.py'']\<rparr>)]\<rparr>\<rparr>
       = Inr [''/p/a.txt'', ''/p/build/keep.txt'']"
  by code_simp

text \<open>
  C10. The prefix string of the scope of a directory \<open>d\<close> of the root ends without a
  slash, so the query path of every entry \<open>e\<close> of a sibling directory whose name
  \<open>d @ x\<close> extends \<open>d\<close> starts with it: the scope of \<open>d\<close> is consulted for that
  path, and the path is reported ignored when that scope's matcher matches it.
\<close>

theorem C10_scope_prefix_reaches_sibling:
  assumes "valid_name (d @ x)" and "valid_name e"
    and "(scope_prefix [d], ig) \<in> set (ignorer_data self)"
    and "match_file lib (pathspec ig) (query_path [d @ x] e is_dir)"
  shows "startswith (query_path [d @ x] e is_dir) (scope_prefix [d])
     \<and> GitIgnorer_ignore lib self (query_path [d @ x] e is_dir) = Inr True"
proof -
  have q: "query_path [d @ x] e is_dir
             = (''/'' @ d) @ (x @ ''/'' @ e @ (if is_dir then ''/'' else []))"
    using query_path_forms [of "[d @ x]" e is_dir] assms(1,2) by simp
  have p: "scope_prefix [d] = ''/'' @ d" by (simp add: scope_prefix_def)
  have s: "startswith (query_path [d @ x] e is_dir) (scope_prefix [d])"
    unfolding q p startswith_iff_prefix by blast
  have ne: "query_path [d @ x] e is_dir \<noteq> ''/''" "query_path [d @ x] e is_dir \<noteq> []"
    using query_path_not_root [OF assms(2), of "[d @ x]" is_dir] by simp_all
  have "\<exists>(prefix, i) \<in> set (ignorer_data self).
          startswith (query_path [d @ x] e is_dir) prefix
          \<and> match_file lib (pathspec i) (query_path [d @ x] e is_dir)"
    using assms(3,4) s by blast
  then have "GitIgnorer_ignore lib self (query_path [d @ x] e is_dir) = Inr True"
    using ne by (simp add: GitIgnorer_ignore_def ignore_loop_eq)
  with s show ?thesis by blast
qed

theorem C10_scope_prefix_reaches_sibling_witness:
  "valid_name (''sub'' @ ''dir'') \<and> valid_name ''file''
   \<and> FileSelector_create exact_lib ''/home'' ex_scoped_tree ex_cm None
       = Inr \<lparr>config_manager = ex_cm,
              ignorer = \<lparr>ignorer_data =
                [(''/'', \<lparr>pathspec = []\<rparr>),
                 (''/'', \<lparr>pathspec = [''/./build/'']\<rparr>),
                 (''/sub'', \<lparr>pathspec = [''/subdir/file'']\<rparr>)]\<rparr>\<rparr>
   \<and> (scope_prefix [''sub''], \<lparr>pathspec = [''/subdir/file'']\<rparr>)
        \<in> set [(''/'', \<lparr>pathspec = []\<rparr>),
                 (''/'', \<lparr>pathspec = [''/./build/'']\<rparr>),
                 (''/sub'', \<lparr>pathspec = [''/subdir/file'']\<rparr>)]
   \<and> match_file exact_lib [''/subdir/file''] (query_path [''sub'' @ ''dir''] ''file'' False)
   \<and> query_path [''sub'' @ ''dir''] ''file'' False = ''/subdir/file''
   \<and> GitIgnorer_ignore exact_lib
        \<lparr>ignorer_data =
                [(''/'', \<lparr>pathspec = []\<rparr>),
                 (''/'', \<lparr>pathspec = [''/./build/'']\<rparr>),
                 (''/sub'', \<lparr>pathspec = [''/subdir/file'']\<rparr>)]\<rparr>
        (query_path [''sub'' @ ''dir''] ''file'' False) = Inr True
   \<and> main exact_lib ''/home'' ex_scoped_tree ex_cm
       = (Inr (), [[''/p/.gitignore'', ''/p/sub/.gitignore'', ''/p/sub/x'']])"
proof -
  let ?data = "[(''/'', \<lparr>pathspec = []\<rparr>),
                 (''/'', \<lparr>pathspec = [''/./build/'']\<rparr>),
                 (''/sub'', \<lparr>pathspec = [''/subdir/file'']\<rparr>)]
               :: (string \<times> string list PathspecIgnorer) list"
  have h1: "valid_name (''sub'' @ ''dir'')" by code_simp
  have h2: "valid_name ''file''" by code_simp
  have h3: "(scope_prefix [''sub''], \<lparr>pathspec = [''/subdir/file'']\<rparr>)
              \<in> set (ignorer_data \<lparr>ignorer_data = ?data\<rparr>)"
    by (simp add: scope_prefix_def)
  have h4: "match_file exact_lib (pathspec \<lparr>pathspec = [''/subdir/file'']\<rparr>)
              (query_path [''sub'' @ ''dir''] ''file'' False)"
    by code_simp
  have h5: "FileSelector_create exact_lib ''/home'' ex_scoped_tree ex_cm None
       = Inr \<lparr>config_manager = ex_cm, ignorer = \<lparr>ignorer_data = ?data\<rparr>\<rparr>"
    by code_simp
  have h6: "query_path [''sub'' @ ''dir''] ''file'' False = ''/subdir/file''" by code_simp
  have h7: "main exact_lib ''/home'' ex_scoped_tree ex_cm
       = (Inr (), [[''/p/.gitignore'', ''/p/sub/.gitignore'', ''/p/sub/x'']])"
    by code_simp
  from C10_scope_prefix_reaches_sibling [OF h1 h2 h3 h4]
  have h8: "GitIgnorer_ignore exact_lib \<lparr>ignorer_data = ?data\<rparr>
        (query_path [''sub'' @ ''dir''] ''file'' False) = Inr True"
    by blast
  from h3 have h3': "(scope_prefix [''sub''], \<lparr>pathspec = [''/subdir/file'']\<rparr>) \<in> set ?data"
    by simp
  from h4 have h4': "match_file exact_lib [''/subdir/file'']
                       (query_path [''sub'' @ ''dir''] ''file'' False)"
    by simp
  from h1 h2 h5 h3' h4' h6 h8 h7 show ?thesis by (intro conjI)
qed

end
